theory Spec2Isabelle
  imports Main "HOL-Library.Multiset"
begin

section \<open>Data model (types.ts)\<close>

text \<open>
  The TypeScript interfaces become records.  Isabelle record fields live in one name
  space, so the two \<open>id\<close> fields and the two \<open>isHighlighted\<close> fields are told apart
  (\<open>rid\<close>/\<open>pid\<close>, \<open>rHighlighted\<close>/\<open>pHighlighted\<close>), and \<open>value\<close> is \<open>rvalue\<close>.
  Optional boolean flags (\<open>isNew?: boolean\<close>) are \<open>bool option\<close>, \<open>None\<close> being an
  absent field; \<open>number | null\<close> links are \<open>int option\<close>.  Ids are integers.
\<close>

datatype IndexType = PRIMARY | SECONDARY

record RecordData =
  rid :: int
  rvalue :: string
  isNew :: "bool option"
  rHighlighted :: "bool option"

record PageData =
  pid :: int
  indexType :: IndexType
  records :: "RecordData list"
  nextPageId :: "int option"
  prevPageId :: "int option"
  isDirty :: "bool option"
  isSplitting :: "bool option"
  pHighlighted :: "bool option"

datatype LogType = info | success | warning | error

text \<open>
  A log entry's \<open>id\<close> and \<open>timestamp\<close> come from \<open>Math.random\<close> and \<open>Date.now\<close>;
  they are not part of the model.
\<close>

record LogEntry =
  message :: string
  logType :: LogType

record EngineState =
  pages :: "PageData list"
  logs :: "LogEntry list"
  pageCounter :: int

definition PAGE_CAPACITY :: nat where
  "PAGE_CAPACITY = 4"

datatype SimulationStepType = SCAN_PAGE | FOUND_INDEX_ENTRY | JUMP_TO_PK | FOUND_DATA | FINISHED

record SimulationStep =
  stepId :: nat
  stepMessage :: string
  targetPageId :: int
  targetRecordId :: "int option"
  stepType :: SimulationStepType

section \<open>Rendering numbers inside template strings\<close>

text \<open>
  The decimal rendering of an integer, as a template literal prints an integral number
  of magnitude below \<open>10^21\<close>.
\<close>

definition digit :: "nat \<Rightarrow> char" where
  "digit d = char_of (48 + d)"

fun show_nat :: "nat \<Rightarrow> string" where
  "show_nat n = (if n < 10 then [digit n] else show_nat (n div 10) @ [digit (n mod 10)])"

declare show_nat.simps [simp del]

definition show_int :: "int \<Rightarrow> string" where
  "show_int i = (if i < 0 then CHR ''-'' # show_nat (nat (- i)) else show_nat (nat i))"

text \<open>\<open>Number(param)\<close> is an integer or NaN (\<open>None\<close>).\<close>

definition show_number :: "int option \<Rightarrow> string" where
  "show_number k = (case k of None \<Rightarrow> ''NaN'' | Some i \<Rightarrow> show_int i)"

definition show_indexType :: "IndexType \<Rightarrow> string" where
  "show_indexType t = (case t of PRIMARY \<Rightarrow> ''PRIMARY'' | SECONDARY \<Rightarrow> ''SECONDARY'')"

definition sq :: string where
  "sq = [char_of (39::nat)]"

definition dq :: string where
  "dq = [char_of (34::nat)]"

section \<open>Array operations of the host language\<close>

text \<open>\<open>Array.prototype.findIndex\<close>; \<open>None\<close> stands for the result \<open>-1\<close>.\<close>

fun findIndex :: "('a \<Rightarrow> bool) \<Rightarrow> 'a list \<Rightarrow> nat option" where
  "findIndex P [] = None"
| "findIndex P (x # xs) =
     (if P x then Some 0 else (case findIndex P xs of None \<Rightarrow> None | Some i \<Rightarrow> Some (Suc i)))"

text \<open>
  \<open>Array.prototype.sort\<close> with a comparator is a stable sort: for a comparator that is
  a consistent ordering its result is the one of the stable insertion sort below, which
  puts each element behind all earlier elements that do not compare greater.
\<close>

fun insort_cmp :: "('a \<Rightarrow> 'a \<Rightarrow> int) \<Rightarrow> 'a \<Rightarrow> 'a list \<Rightarrow> 'a list" where
  "insort_cmp c x [] = [x]"
| "insort_cmp c x (y # ys) = (if c x y < 0 then x # y # ys else y # insort_cmp c x ys)"

definition sort_cmp :: "('a \<Rightarrow> 'a \<Rightarrow> int) \<Rightarrow> 'a list \<Rightarrow> 'a list" where
  "sort_cmp c xs = foldl (\<lambda>acc x. insort_cmp c x acc) [] xs"

section \<open>Index engine (services/innodb.ts)\<close>

definition createPage :: "int \<Rightarrow> IndexType \<Rightarrow> PageData" where
  "createPage i t =
     \<lparr>pid = i, indexType = t, records = [], nextPageId = None, prevPageId = None,
      isDirty = None, isSplitting = None, pHighlighted = None\<rparr>"

definition addLog :: "LogEntry list \<Rightarrow> string \<Rightarrow> LogType \<Rightarrow> LogEntry list" where
  "addLog ls msg t = \<lparr>message = msg, logType = t\<rparr> # take 49 ls"

definition initializeEngine :: EngineState where
  "initializeEngine =
     \<lparr>pages = [createPage 1 PRIMARY, createPage 2 SECONDARY],
      logs = addLog []
        ''InnoDB Engine Initialized. Created Primary Clustered Index and Secondary Index (Name).''
        success,
      pageCounter = 2\<rparr>"

text \<open>
  The \<open>while (current)\<close> loop that locates the target page.  It follows
  \<open>nextPageId\<close> through the whole page array and need not end on a cyclic chain, so it
  is a partial function: \<open>None\<close> means the loop never exits.  The result is the
  source's \<open>targetPageId\<close>, with its sentinel \<open>-1\<close>; the loop variable
  \<open>current\<close> is the first argument.
\<close>

partial_function (option) findTarget ::
  "PageData option \<Rightarrow> PageData list \<Rightarrow> (RecordData \<Rightarrow> RecordData \<Rightarrow> int) \<Rightarrow> RecordData \<Rightarrow> int option"
where
  "findTarget current currentPages compareFn record =
     (case current of
        None \<Rightarrow> Some (- 1)
      | Some cur \<Rightarrow>
          (case nextPageId cur of
             None \<Rightarrow> Some (pid cur)
           | Some n \<Rightarrow>
               (case find (\<lambda>p. pid p = n) currentPages of
                  None \<Rightarrow> findTarget None currentPages compareFn record
                | Some nextPage \<Rightarrow>
                    if records nextPage \<noteq> [] \<and> compareFn (hd (records nextPage)) record > 0
                    then Some (pid cur)
                    else findTarget (Some nextPage) currentPages compareFn record)))"

declare findTarget.simps [code]

text \<open>The head of the chain of one index type, with the source's fallback.\<close>

definition chainHead :: "PageData list \<Rightarrow> IndexType \<Rightarrow> PageData option" where
  "chainHead currentPages t =
     (let indexPages = filter (\<lambda>p. indexType p = t) currentPages in
      case find (\<lambda>p. prevPageId p = None) indexPages of
        Some h \<Rightarrow> Some h
      | None \<Rightarrow> (case indexPages of [] \<Rightarrow> None | h # _ \<Rightarrow> Some h))"

record InsertResult =
  resPages :: "PageData list"
  newPageCounter :: int
  resLogs :: "LogEntry list"

text \<open>The split branch: \<open>if (updatedRecords.length > PAGE_CAPACITY) { ... }\<close>.\<close>

definition splitPage ::
  "PageData list \<Rightarrow> IndexType \<Rightarrow> nat \<Rightarrow> PageData \<Rightarrow> RecordData list \<Rightarrow> int \<Rightarrow> LogEntry list
     \<Rightarrow> InsertResult" where
  "splitPage currentPages t pageIndex targetPage updatedRecords counter ls =
     (let ls1 = addLog ls (''['' @ show_indexType t @ ''] Page '' @ show_int (pid targetPage)
                  @ '' full. Splitting...'') warning;
          newPageId = counter + 1;
          newPage = createPage newPageId t;
          splitIndex = (length updatedRecords + 1) div 2;
          keepRecords = take splitIndex updatedRecords;
          moveRecords = drop splitIndex updatedRecords;
          pages1 = currentPages[pageIndex := (currentPages ! pageIndex)
                     \<lparr>records := keepRecords, isSplitting := Some True,
                      nextPageId := Some newPageId\<rparr>];
          newPage1 = newPage\<lparr>records := moveRecords, nextPageId := nextPageId targetPage,
                      prevPageId := Some (pid targetPage), isDirty := Some True\<rparr>;
          pages2 = (case nextPageId targetPage of
                      None \<Rightarrow> pages1
                    | Some n \<Rightarrow>
                        (case findIndex (\<lambda>p. pid p = n) pages1 of
                           None \<Rightarrow> pages1
                         | Some nextNextPageIndex \<Rightarrow>
                             pages1[nextNextPageIndex := (pages1 ! nextNextPageIndex)
                               \<lparr>prevPageId := Some newPageId\<rparr>]));
          ls2 = addLog ls1 (''['' @ show_indexType t @ ''] Split Complete. Page ''
                  @ show_int (pid targetPage) @ '' -> Page '' @ show_int newPageId @ ''.'')
                  success
      in \<lparr>resPages = pages2 @ [newPage1], newPageCounter = newPageId, resLogs = ls2\<rparr>)"

text \<open>
  \<open>insertIntoIndex\<close>.  \<open>None\<close> means the call returns nothing: the locating loop does
  not end, or \<open>currentPages[pageIndex]\<close> is \<open>undefined\<close> and reading its records throws
  (lemma \<open>insertIntoIndex_None\<close> below shows that the second never happens).
\<close>

definition insertIntoIndex ::
  "PageData list \<Rightarrow> IndexType \<Rightarrow> RecordData \<Rightarrow> (RecordData \<Rightarrow> RecordData \<Rightarrow> int) \<Rightarrow> int
     \<Rightarrow> LogEntry list \<Rightarrow> InsertResult option" where
  "insertIntoIndex currentPages t record compareFn counter ls =
     (case findTarget (chainHead currentPages t) currentPages compareFn record of
        None \<Rightarrow> None
      | Some target \<Rightarrow>
          if target = - 1
          then Some \<lparr>resPages = currentPages, newPageCounter = counter, resLogs = ls\<rparr>
          else
            (case findIndex (\<lambda>p. pid p = target) currentPages of
               None \<Rightarrow> None
             | Some pageIndex \<Rightarrow>
                 (let targetPage = currentPages ! pageIndex in
                  if t = PRIMARY \<and> (\<exists>r \<in> set (records targetPage). rid r = rid record)
                  then Some \<lparr>resPages = currentPages, newPageCounter = counter,
                             resLogs = addLog ls (''Duplicate Key Error: ID ''
                               @ show_int (rid record) @ '' exists.'') error\<rparr>
                  else
                    (let updatedRecords = sort_cmp compareFn (records targetPage @ [record]);
                         pages1 = currentPages[pageIndex := targetPage
                                    \<lparr>records := updatedRecords, isDirty := Some True,
                                     isSplitting := Some False\<rparr>]
                     in if length updatedRecords > PAGE_CAPACITY
                        then Some (splitPage pages1 t pageIndex targetPage updatedRecords counter ls)
                        else Some \<lparr>resPages = pages1, newPageCounter = counter,
                                   resLogs = ls\<rparr>))))"

text \<open>
  The two comparators of \<open>insertRecord\<close>.  \<open>String.prototype.localeCompare\<close> belongs to
  the host, not to the repository: it is the parameter \<open>lc\<close>.
\<close>

definition primaryCompare :: "RecordData \<Rightarrow> RecordData \<Rightarrow> int" where
  "primaryCompare a b = rid a - rid b"

definition secondaryCompare :: "(string \<Rightarrow> string \<Rightarrow> int) \<Rightarrow> RecordData \<Rightarrow> RecordData \<Rightarrow> int" where
  "secondaryCompare lc a b =
     (if lc (rvalue a) (rvalue b) \<noteq> 0 then lc (rvalue a) (rvalue b) else rid a - rid b)"

definition cleanRecord :: "RecordData \<Rightarrow> RecordData" where
  "cleanRecord r = r\<lparr>isNew := Some False, rHighlighted := Some False\<rparr>"

definition cleanPage :: "PageData \<Rightarrow> PageData" where
  "cleanPage p =
     p\<lparr>isDirty := Some False, isSplitting := Some False, pHighlighted := Some False,
       records := map cleanRecord (records p)\<rparr>"

definition newRecord :: "int \<Rightarrow> string \<Rightarrow> RecordData" where
  "newRecord i v = \<lparr>rid = i, rvalue = v, isNew = Some True, rHighlighted = None\<rparr>"

text \<open>
  \<open>insertRecord\<close>.  The logs of the secondary insertion are dropped, as in the source:
  the final log is built on the primary insertion's.
\<close>

definition insertRecord ::
  "(string \<Rightarrow> string \<Rightarrow> int) \<Rightarrow> EngineState \<Rightarrow> int \<Rightarrow> string \<Rightarrow> EngineState option" where
  "insertRecord lc state i v =
     (let pages0 = map cleanPage (pages state) in
      case insertIntoIndex pages0 PRIMARY (newRecord i v) primaryCompare
             (pageCounter state) (logs state) of
        None \<Rightarrow> None
      | Some primaryResult \<Rightarrow>
          (case insertIntoIndex (resPages primaryResult) SECONDARY (newRecord i v)
                  (secondaryCompare lc) (newPageCounter primaryResult)
                  (resLogs primaryResult) of
             None \<Rightarrow> None
           | Some secondaryResult \<Rightarrow>
               Some \<lparr>pages = resPages secondaryResult,
                     logs = addLog (resLogs primaryResult)
                       (''Transaction Committed: Inserted ('' @ show_int i @ '', '' @ dq @ v
                          @ dq @ '').'') info,
                     pageCounter = newPageCounter secondaryResult\<rparr>))"

definition resetEngine :: EngineState where
  "resetEngine = initializeEngine"

section \<open>Query simulator (services/innodb.ts)\<close>

text \<open>
  The mutable pair of \<open>steps\<close> and the counter \<open>stepId\<close> that \<open>addStep\<close> closes
  over is passed explicitly.
\<close>

record Sim =
  steps :: "SimulationStep list"
  nextStepId :: nat

definition emptySim :: Sim where
  "emptySim = \<lparr>steps = [], nextStepId = 0\<rparr>"

definition addStep :: "Sim \<Rightarrow> string \<Rightarrow> int \<Rightarrow> SimulationStepType \<Rightarrow> int option \<Rightarrow> Sim" where
  "addStep st msg pageId ty recordId =
     \<lparr>steps = steps st @ [\<lparr>stepId = nextStepId st, stepMessage = msg, targetPageId = pageId,
                             targetRecordId = recordId, stepType = ty\<rparr>],
      nextStepId = nextStepId st + 1\<rparr>"

text \<open>\<open>if (current.nextPageId)\<close>: \<open>null\<close> and \<open>0\<close> are falsy.\<close>

definition truthy :: "int option \<Rightarrow> bool" where
  "truthy n = (n \<noteq> None \<and> n \<noteq> Some 0)"

text \<open>
  \<open>maxId < id\<close>, where \<open>maxId\<close> is \<open>undefined\<close> on a page without records and
  \<open>id\<close> may be NaN: both make the comparison false.
\<close>

definition maxIdLess :: "PageData \<Rightarrow> int option \<Rightarrow> bool" where
  "maxIdLess cur k =
     (case k of None \<Rightarrow> False | Some i \<Rightarrow> records cur \<noteq> [] \<and> rid (last (records cur)) < i)"

text \<open>
  How a loop with a \<open>return steps\<close> in its body ends: by that return, or by leaving
  the loop (\<open>break\<close>, or \<open>current\<close> undefined).
\<close>

datatype LoopExit = Returned Sim | LeftLoop Sim

definition msgScanPrimary :: "int \<Rightarrow> string" where
  "msgScanPrimary i = ''Scanning Primary Page '' @ show_int i @ ''...''"

definition msgFoundRecord :: "int option \<Rightarrow> int \<Rightarrow> string" where
  "msgFoundRecord k i =
     ''Found Record '' @ show_number k @ '' in Page '' @ show_int i @ ''. Returning Data.''"

text \<open>The \<open>while (current)\<close> loop of a \<open>BY_ID\<close> query; \<open>k\<close> is \<open>Number(param)\<close>.\<close>

partial_function (option) scanPrimaryById ::
  "PageData option \<Rightarrow> PageData list \<Rightarrow> int option \<Rightarrow> Sim \<Rightarrow> LoopExit option"
where
  "scanPrimaryById current ps k st =
     (case current of
        None \<Rightarrow> Some (LeftLoop st)
      | Some cur \<Rightarrow>
          if (\<exists>r \<in> set (records cur). Some (rid r) = k)
          then Some (Returned
                 (addStep (addStep st (msgScanPrimary (pid cur)) (pid cur) SCAN_PAGE None)
                    (msgFoundRecord k (pid cur)) (pid cur) FOUND_DATA k))
          else if truthy (nextPageId cur) \<and> maxIdLess cur k
          then scanPrimaryById (find (\<lambda>p. Some (pid p) = nextPageId cur) ps) ps k
                 (addStep st (msgScanPrimary (pid cur)) (pid cur) SCAN_PAGE None)
          else Some (LeftLoop (addStep st (msgScanPrimary (pid cur)) (pid cur) SCAN_PAGE None)))"

declare scanPrimaryById.simps [code]

text \<open>
  The walk over the secondary chain.  It ends with \<open>foundPk\<close> set, on the page
  \<open>current\<close> that holds the entry, or with \<open>foundPk\<close> still \<open>null\<close>.
\<close>

datatype SecondaryExit = FoundEntry Sim PageData int | NoEntry Sim

definition msgScanSecondary :: "int \<Rightarrow> string" where
  "msgScanSecondary i = ''Scanning Secondary Index Page '' @ show_int i @ ''...''"

definition msgFoundEntry :: "string \<Rightarrow> int \<Rightarrow> int \<Rightarrow> string" where
  "msgFoundEntry name pk i =
     ''Found Index Entry ('' @ sq @ name @ sq @ '', PK: '' @ show_int pk @ '') in Page ''
       @ show_int i @ ''.''"

partial_function (option) scanSecondary ::
  "PageData option \<Rightarrow> PageData list \<Rightarrow> string \<Rightarrow> Sim \<Rightarrow> SecondaryExit option"
where
  "scanSecondary current ps name st =
     (case current of
        None \<Rightarrow> Some (NoEntry st)
      | Some cur \<Rightarrow>
          (case find (\<lambda>r. rvalue r = name) (records cur) of
             Some found \<Rightarrow>
               Some (FoundEntry
                 (addStep (addStep st (msgScanSecondary (pid cur)) (pid cur) SCAN_PAGE None)
                    (msgFoundEntry name (rid found) (pid cur)) (pid cur) FOUND_INDEX_ENTRY
                    (Some (rid found)))
                 cur (rid found))
           | None \<Rightarrow>
               if truthy (nextPageId cur)
               then scanSecondary (find (\<lambda>p. Some (pid p) = nextPageId cur) ps) ps name
                      (addStep st (msgScanSecondary (pid cur)) (pid cur) SCAN_PAGE None)
               else Some (NoEntry
                      (addStep st (msgScanSecondary (pid cur)) (pid cur) SCAN_PAGE None))))"

declare scanSecondary.simps [code]

definition msgScanPrimaryForPk :: "int \<Rightarrow> int \<Rightarrow> string" where
  "msgScanPrimaryForPk i pk =
     ''Scanning Primary Page '' @ show_int i @ '' for PK '' @ show_int pk @ ''...''"

definition msgLookupSuccessful :: "int \<Rightarrow> string" where
  "msgLookupSuccessful pk =
     ''Lookup Successful: Retrieved full row for '' @ show_int pk @ '' from Clustered Index.''"

text \<open>The table lookup of a plain \<open>BY_NAME\<close> query: the walk over the primary chain.\<close>

partial_function (option) scanPrimaryByPk ::
  "PageData option \<Rightarrow> PageData list \<Rightarrow> int \<Rightarrow> Sim \<Rightarrow> LoopExit option"
where
  "scanPrimaryByPk current ps foundPk st =
     (case current of
        None \<Rightarrow> Some (LeftLoop st)
      | Some cur \<Rightarrow>
          if (\<exists>r \<in> set (records cur). rid r = foundPk)
          then Some (Returned
                 (addStep (addStep st (msgScanPrimaryForPk (pid cur) foundPk) (pid cur) SCAN_PAGE None)
                    (msgLookupSuccessful foundPk) (pid cur) FOUND_DATA (Some foundPk)))
          else if truthy (nextPageId cur)
          then scanPrimaryByPk (find (\<lambda>p. Some (pid p) = nextPageId cur) ps) ps foundPk
                 (addStep st (msgScanPrimaryForPk (pid cur) foundPk) (pid cur) SCAN_PAGE None)
          else Some (LeftLoop
                 (addStep st (msgScanPrimaryForPk (pid cur) foundPk) (pid cur) SCAN_PAGE None)))"

declare scanPrimaryByPk.simps [code]

text \<open>
  A query is its kind together with the coerced parameter: \<open>Number(param)\<close> for
  \<open>BY_ID\<close>, an integer or NaN (\<open>None\<close>), and \<open>String(param)\<close> for the two others.
  Keys that are numbers but not integers are outside the model.
\<close>

datatype Query = BY_ID "int option" | BY_NAME string | BY_NAME_COVERING string

definition primaryHead :: "PageData list \<Rightarrow> PageData option" where
  "primaryHead ps = find (\<lambda>p. indexType p = PRIMARY \<and> prevPageId p = None) ps"

definition secondaryHead :: "PageData list \<Rightarrow> PageData option" where
  "secondaryHead ps = find (\<lambda>p. indexType p = SECONDARY \<and> prevPageId p = None) ps"

definition msgQueryById :: "int option \<Rightarrow> string" where
  "msgQueryById k = ''QUERY: SELECT * FROM table WHERE id = '' @ show_number k"

definition msgNotFoundById :: "int option \<Rightarrow> string" where
  "msgNotFoundById k = ''Record '' @ show_number k @ '' not found in Primary Index.''"

definition msgQueryByName :: "bool \<Rightarrow> string \<Rightarrow> string" where
  "msgQueryByName isCovering name =
     ''QUERY: '' @ (if isCovering then ''SELECT id FROM table WHERE name = '' @ sq @ name @ sq
                    else ''SELECT * FROM table WHERE name = '' @ sq @ name @ sq)"

definition msgNameNotFound :: "string \<Rightarrow> string" where
  "msgNameNotFound name = ''Name '' @ sq @ name @ sq @ '' not found in Index.''"

definition msgCovering :: string where
  "msgCovering = ''Covering Index optimization! We only need ID. No table lookup required.''"

text \<open>The two characters between the parentheses of the source's message, in UTF-8.\<close>

definition huiBiao :: string where
  "huiBiao = map char_of [229, 155, 158, 232, 161, 168 :: nat]"

definition msgJump :: "int \<Rightarrow> string" where
  "msgJump pk =
     ''Need full row data. Performing Table Lookup ('' @ huiBiao @ '') for PK: ''
       @ show_int pk @ ''...''"

definition simulateById :: "PageData list \<Rightarrow> int option \<Rightarrow> SimulationStep list option" where
  "simulateById ps k =
     (case scanPrimaryById (primaryHead ps) ps k
             (addStep emptySim (msgQueryById k) 0 FINISHED None) of
        None \<Rightarrow> None
      | Some (Returned st) \<Rightarrow> Some (steps st)
      | Some (LeftLoop st) \<Rightarrow> Some (steps (addStep st (msgNotFoundById k) 0 FINISHED None)))"

definition simulateByName :: "PageData list \<Rightarrow> bool \<Rightarrow> string \<Rightarrow> SimulationStep list option" where
  "simulateByName ps isCovering name =
     (case scanSecondary (secondaryHead ps) ps name
             (addStep emptySim (msgQueryByName isCovering name) 0 FINISHED None) of
        None \<Rightarrow> None
      | Some (NoEntry st) \<Rightarrow> Some (steps (addStep st (msgNameNotFound name) 0 FINISHED None))
      | Some (FoundEntry st cur foundPk) \<Rightarrow>
          if isCovering
          then Some (steps (addStep st msgCovering (pid cur) FINISHED (Some foundPk)))
          else
            (case scanPrimaryByPk (primaryHead ps) ps foundPk
                    (addStep st (msgJump foundPk) (pid cur) JUMP_TO_PK (Some foundPk)) of
               None \<Rightarrow> None
             | Some (Returned st') \<Rightarrow> Some (steps st')
             | Some (LeftLoop st') \<Rightarrow> Some (steps st')))"

text \<open>\<open>simulateSelectQuery\<close>; \<open>None\<close> means that a walk never ends.\<close>

definition simulateSelectQuery :: "EngineState \<Rightarrow> Query \<Rightarrow> SimulationStep list option" where
  "simulateSelectQuery state q =
     (case q of
        BY_ID k \<Rightarrow> simulateById (pages state) k
      | BY_NAME name \<Rightarrow> simulateByName (pages state) False name
      | BY_NAME_COVERING name \<Rightarrow> simulateByName (pages state) True name)"

section \<open>Snapshot for the summarisation service (services/gemini.ts)\<close>

record SimplePage =
  page_id :: int
  record_ids :: "int list"
  next_page :: "int option"
  prev_page :: "int option"
  status :: string

definition simplePage :: "PageData \<Rightarrow> SimplePage" where
  "simplePage p =
     \<lparr>page_id = pid p, record_ids = map rid (records p), next_page = nextPageId p,
      prev_page = prevPageId p,
      status = (if length (records p) \<ge> 4 then ''FULL'' else ''HAS_SPACE'')\<rparr>"

definition simplePages :: "EngineState \<Rightarrow> SimplePage list" where
  "simplePages state = map simplePage (pages state)"

section \<open>Auxiliary definitions for the verification\<close>

text \<open>
  A sequence of \<open>insertRecord\<close> calls on a state; \<open>None\<close> as soon as one call returns
  nothing.
\<close>

fun insertAll ::
  "(string \<Rightarrow> string \<Rightarrow> int) \<Rightarrow> EngineState \<Rightarrow> (int \<times> string) list \<Rightarrow> EngineState option" where
  "insertAll lc s [] = Some s"
| "insertAll lc s ((i, v) # ops) =
     (case insertRecord lc s i v of None \<Rightarrow> None | Some s' \<Rightarrow> insertAll lc s' ops)"

text \<open>
  A concrete comparison of strings by their character codes, used to run examples.  The
  theorems below hold for every \<open>lc\<close>.
\<close>

fun strCompare :: "string \<Rightarrow> string \<Rightarrow> int" where
  "strCompare [] [] = 0"
| "strCompare [] (b # bs) = - 1"
| "strCompare (a # as) [] = 1"
| "strCompare (a # as) (b # bs) =
     (if (of_char a :: nat) < of_char b then - 1
      else if (of_char b :: nat) < of_char a then 1
      else strCompare as bs)"

text \<open>The concrete scenario of the specification: five inserts into a fresh engine.\<close>

definition scenarioState :: "EngineState option" where
  "scenarioState =
     insertAll strCompare initializeEngine
       [(1, ''Alice''), (2, ''Bob''), (3, ''Charlie''), (4, ''Dave''), (5, ''Eve'')]"

text \<open>The step counter agrees with the steps emitted so far.\<close>

definition simOk :: "Sim \<Rightarrow> bool" where
  "simOk st =
     (nextStepId st = length (steps st) \<and> map stepId (steps st) = [0..<length (steps st)])"

fun exitSim :: "LoopExit \<Rightarrow> Sim" where
  "exitSim (Returned st) = st"
| "exitSim (LeftLoop st) = st"

fun secondarySim :: "SecondaryExit \<Rightarrow> Sim" where
  "secondarySim (FoundEntry st cur pk) = st"
| "secondarySim (NoEntry st) = st"

text \<open>
  A page with its display flags, and those of its records, set to arbitrary values.
\<close>

definition withFlags ::
  "bool option \<Rightarrow> bool option \<Rightarrow> bool option \<Rightarrow> bool option \<Rightarrow> bool option \<Rightarrow> PageData \<Rightarrow> PageData" where
  "withFlags d sp h n rh p =
     p\<lparr>isDirty := d, isSplitting := sp, pHighlighted := h,
       records := map (\<lambda>r. r\<lparr>isNew := n, rHighlighted := rh\<rparr>) (records p)\<rparr>"

text \<open>
  \<open>scansIn S st st'\<close>: the simulation \<open>st'\<close> extends \<open>st\<close> by \<open>SCAN_PAGE\<close> steps only,
  all of them on pages whose ids are in \<open>S\<close>.
\<close>

definition scansIn :: "int set \<Rightarrow> Sim \<Rightarrow> Sim \<Rightarrow> bool" where
  "scansIn S st st' \<longleftrightarrow>
     (\<exists>new. steps st' = steps st @ new
        \<and> (\<forall>x \<in> set new. stepType x = SCAN_PAGE \<and> targetPageId x \<in> S))"

text \<open>
  The forward links of the pages with an id in \<open>S\<close> stay in \<open>S\<close>.
\<close>

definition linksInside :: "PageData list \<Rightarrow> int set \<Rightarrow> bool" where
  "linksInside ps S \<longleftrightarrow> (\<forall>p \<in> set ps. pid p \<in> S \<longrightarrow> (\<forall>n. nextPageId p = Some n \<longrightarrow> n \<in> S))"

text \<open>
  What the walk over the secondary chain emits: scans, and on a match the
  \<open>FOUND_INDEX_ENTRY\<close> step for a record of that name on the page it stopped at.
\<close>

definition secondaryShape :: "int set \<Rightarrow> PageData list \<Rightarrow> string \<Rightarrow> Sim \<Rightarrow> SecondaryExit \<Rightarrow> bool" where
  "secondaryShape S ps name st ex =
     (case ex of
        NoEntry st' \<Rightarrow> scansIn S st st'
      | FoundEntry st' c pk \<Rightarrow>
          (\<exists>mid. scansIn S st mid
             \<and> st' = addStep mid (msgFoundEntry name pk (pid c)) (pid c) FOUND_INDEX_ENTRY (Some pk))
          \<and> c \<in> set ps \<and> pid c \<in> S
          \<and> (\<exists>r \<in> set (records c). rvalue r = name \<and> rid r = pk))"

text \<open>
  The step kinds that end a query: the \<open>FINISHED\<close> steps and the successful \<open>FOUND_DATA\<close>.
\<close>

definition isTerminal :: "SimulationStepType \<Rightarrow> bool" where
  "isTerminal ty = (ty = FINISHED \<or> ty = FOUND_DATA)"

text \<open>
  What the walks over the primary chain emit: scans, then \<open>FOUND_DATA\<close> when they return from
  inside the loop.
\<close>

definition endsFound :: "Sim \<Rightarrow> Sim \<Rightarrow> int option \<Rightarrow> bool" where
  "endsFound st st' k \<longleftrightarrow>
     (\<exists>mid m p. scansIn UNIV st mid \<and> st' = addStep mid m p FOUND_DATA k)"

definition loopShape :: "Sim \<Rightarrow> LoopExit \<Rightarrow> int option \<Rightarrow> bool" where
  "loopShape st ex k = (case ex of LeftLoop st' \<Rightarrow> scansIn UNIV st st' | Returned st' \<Rightarrow> endsFound st st' k)"

text \<open>
  A step sequence that opens with a \<open>FINISHED\<close> step on page 0 and has steps of terminal kind
  nowhere else but, possibly, at its very end.
\<close>

definition midShape :: "SimulationStep list \<Rightarrow> bool" where
  "midShape sts \<longleftrightarrow>
     (\<exists>q mid fin. sts = q # mid @ fin \<and> stepType q = FINISHED \<and> targetPageId q = 0
        \<and> (\<forall>x \<in> set mid. \<not> isTerminal (stepType x)) \<and> length fin \<le> 1)"

text \<open>
  The \<open>BY_ID\<close> walk goes from page \<open>p\<close> through the pages \<open>rest\<close>: on each page before the
  last one the key is absent, the link is set and the largest key is below the target, and the
  link leads to the next page of the list.
\<close>

fun walksById :: "PageData list \<Rightarrow> int option \<Rightarrow> PageData \<Rightarrow> PageData list \<Rightarrow> bool" where
  "walksById ps k p [] = True"
| "walksById ps k p (q # rest) =
     ((\<forall>r \<in> set (records p). Some (rid r) \<noteq> k) \<and> truthy (nextPageId p) \<and> maxIdLess p k
      \<and> find (\<lambda>x. Some (pid x) = nextPageId p) ps = Some q \<and> walksById ps k q rest)"

text \<open>
  The range-boundary break at page \<open>p\<close>: the key is absent from the page, the page has a next
  page (the tail is not reached), and its largest key is not below the target.
\<close>

definition rangeBreak :: "PageData \<Rightarrow> int option \<Rightarrow> bool" where
  "rangeBreak p k \<longleftrightarrow>
     (\<forall>r \<in> set (records p). Some (rid r) \<noteq> k) \<and> truthy (nextPageId p) \<and> \<not> maxIdLess p k"

text \<open>
  The \<open>SCAN_PAGE\<close> steps of a \<open>BY_ID\<close> walk over a list of pages.
\<close>

fun scanAll :: "Sim \<Rightarrow> PageData list \<Rightarrow> Sim" where
  "scanAll st [] = st"
| "scanAll st (p # ps) = scanAll (addStep st (msgScanPrimary (pid p)) (pid p) SCAN_PAGE None) ps"

text \<open>
  Five inserts that leave out the key 3, and eight inserts that leave out the key 6.
\<close>

definition gapState :: "EngineState option" where
  "gapState =
     insertAll strCompare initializeEngine
       [(1, ''Alice''), (2, ''Bob''), (4, ''Dave''), (5, ''Eve''), (6, ''Frank'')]"

definition longState :: "EngineState option" where
  "longState =
     insertAll strCompare initializeEngine
       [(1, ''Alice''), (2, ''Bob''), (3, ''Charlie''), (4, ''Dave''), (5, ''Eve''),
        (7, ''Grace''), (8, ''Heidi''), (9, ''Ivan'')]"

text \<open>
  The three pieces of a split: the original page with the first half of the records and
  the link to the new page, the new page, and the page array after the former next page
  has been linked back to the new page.
\<close>

definition splitKeep :: "PageData \<Rightarrow> RecordData list \<Rightarrow> int \<Rightarrow> PageData" where
  "splitKeep p updatedRecords newPageId =
     p\<lparr>records := take ((length updatedRecords + 1) div 2) updatedRecords,
       isSplitting := Some True, nextPageId := Some newPageId\<rparr>"

definition splitNew :: "IndexType \<Rightarrow> PageData \<Rightarrow> RecordData list \<Rightarrow> int \<Rightarrow> PageData" where
  "splitNew t targetPage updatedRecords newPageId =
     \<lparr>pid = newPageId, indexType = t,
      records = drop ((length updatedRecords + 1) div 2) updatedRecords,
      nextPageId = nextPageId targetPage, prevPageId = Some (pid targetPage),
      isDirty = Some True, isSplitting = None, pHighlighted = None\<rparr>"

definition relinkNext :: "PageData list \<Rightarrow> int option \<Rightarrow> int \<Rightarrow> PageData list" where
  "relinkNext ps nxt newPageId =
     (case nxt of
        None \<Rightarrow> ps
      | Some n \<Rightarrow>
          (case findIndex (\<lambda>p. pid p = n) ps of
             None \<Rightarrow> ps
           | Some j \<Rightarrow> ps[j := (ps ! j)\<lparr>prevPageId := Some newPageId\<rparr>]))"

text \<open>
  Four inserts: the primary page holds exactly \<open>PAGE_CAPACITY\<close> records.
\<close>

definition fullState :: "EngineState option" where
  "fullState =
     insertAll strCompare initializeEngine
       [(1, ''Alice''), (2, ''Bob''), (3, ''Charlie''), (4, ''Dave'')]"

text \<open>\<open>pages.find(p => p.id === i)\<close>: the page array as a partial map from ids to pages.\<close>

definition lookup :: "PageData list \<Rightarrow> int \<Rightarrow> PageData option" where
  "lookup ps i = find (\<lambda>p. pid p = i) ps"

text \<open>
  \<open>seg m t prv is nxt\<close>: the ids \<open>is\<close> name pages of type \<open>t\<close> that are linked one to the
  next in both directions, the first one back to \<open>prv\<close> and the last one on to \<open>nxt\<close>.
\<close>

fun seg :: "(int \<Rightarrow> PageData option) \<Rightarrow> IndexType \<Rightarrow> int option \<Rightarrow> int list \<Rightarrow> int option \<Rightarrow> bool" where
  "seg m t prv [] nxt = True"
| "seg m t prv (i # is) nxt =
     (case m i of
        None \<Rightarrow> False
      | Some p \<Rightarrow> indexType p = t \<and> prevPageId p = prv
          \<and> nextPageId p = (case is of [] \<Rightarrow> nxt | j # _ \<Rightarrow> Some j)
          \<and> seg m t (Some i) is nxt)"

text \<open>
  \<open>chainOf m t is\<close>: the pages of type \<open>t\<close> are exactly the pages named by \<open>is\<close>, which
  form one doubly linked chain from its head (no previous page) to its tail (no next page).
\<close>

definition chainOf :: "(int \<Rightarrow> PageData option) \<Rightarrow> IndexType \<Rightarrow> int list \<Rightarrow> bool" where
  "chainOf m t is \<longleftrightarrow>
     is \<noteq> [] \<and> distinct is \<and> seg m t None is None
     \<and> (\<forall>i p. m i = Some p \<longrightarrow> indexType p = t \<longrightarrow> i \<in> set is)"

definition recsOf :: "(int \<Rightarrow> PageData option) \<Rightarrow> int \<Rightarrow> RecordData list" where
  "recsOf m i = (case m i of None \<Rightarrow> [] | Some p \<Rightarrow> records p)"

text \<open>The record ids of a chain, read from its first page to its last.\<close>

definition chainKeys :: "(int \<Rightarrow> PageData option) \<Rightarrow> int list \<Rightarrow> int list" where
  "chainKeys m is = map rid (concat (map (recsOf m) is))"

text \<open>
  \<open>stopsBefore m cmp r j\<close>: the look-ahead of the locating loop stops in front of page \<open>j\<close>, which has
  records and whose first record compares greater than \<open>r\<close>.
\<close>

definition stopsBefore ::
  "(int \<Rightarrow> PageData option) \<Rightarrow> (RecordData \<Rightarrow> RecordData \<Rightarrow> int) \<Rightarrow> RecordData \<Rightarrow> int \<Rightarrow> bool" where
  "stopsBefore m cmp r j \<longleftrightarrow> recsOf m j \<noteq> [] \<and> cmp (hd (recsOf m j)) r > 0"

text \<open>Page ids are pairwise distinct, positive and at most the counter.\<close>

definition baseInv :: "PageData list \<Rightarrow> int \<Rightarrow> bool" where
  "baseInv ps c \<longleftrightarrow> distinct (map pid ps) \<and> (\<forall>p \<in> set ps. 0 < pid p \<and> pid p \<le> c)"

text \<open>The target page after the insert-and-sort step, before any split.\<close>

definition withRecord :: "PageData \<Rightarrow> (RecordData \<Rightarrow> RecordData \<Rightarrow> int) \<Rightarrow> RecordData \<Rightarrow> PageData" where
  "withRecord p cmp r =
     p\<lparr>records := sort_cmp cmp (records p @ [r]), isDirty := Some True,
       isSplitting := Some False\<rparr>"

text \<open>The log entry of a refused duplicate.\<close>

definition duplicateLog :: "LogEntry list \<Rightarrow> RecordData \<Rightarrow> LogEntry list" where
  "duplicateLog ls r =
     addLog ls (''Duplicate Key Error: ID '' @ show_int (rid r) @ '' exists.'') error"

text \<open>The records of the pages \<open>is\<close>, in the order of the list.\<close>

definition chainRecs :: "(int \<Rightarrow> PageData option) \<Rightarrow> int list \<Rightarrow> RecordData list" where
  "chainRecs m is = concat (map (recsOf m) is)"

text \<open>
  What a completed insertion of \<open>r\<close> into the index \<open>t\<close> with the chain \<open>pre @ tgt # post\<close> and the target
  page \<open>tp\<close> leaves behind: ids stay distinct and bounded by the counter, which grows by
  at most one, the id of the new page if there is one; the index still is one chain
  \<open>is'\<close>, whose records are the old ones with the records of the target page replaced by
  the sorted records; no page of the chain but the head is empty if that was so before;
  and the chain \<open>js\<close> of the other index and its pages are untouched.
\<close>

definition insertedInto ::
  "PageData list \<Rightarrow> int \<Rightarrow> IndexType \<Rightarrow> IndexType \<Rightarrow> int list \<Rightarrow> int list \<Rightarrow> int \<Rightarrow> int list
     \<Rightarrow> RecordData list \<Rightarrow> InsertResult \<Rightarrow> int list \<Rightarrow> bool" where
  "insertedInto ps c t u js pre tgt post upd res is' \<longleftrightarrow>
     baseInv (resPages res) (newPageCounter res)
     \<and> (newPageCounter res = c \<or> newPageCounter res = c + 1)
     \<and> map pid (resPages res) = map pid ps @ (if newPageCounter res = c then [] else [c + 1])
     \<and> chainOf (lookup (resPages res)) t is'
     \<and> chainOf (lookup (resPages res)) u js
     \<and> (\<forall>j \<in> set js. lookup (resPages res) j = lookup ps j)
     \<and> chainRecs (lookup (resPages res)) is' =
         chainRecs (lookup ps) pre @ upd @ chainRecs (lookup ps) post
     \<and> ((\<forall>i \<in> set (tl (pre @ tgt # post)). recsOf (lookup ps) i \<noteq> [])
          \<longrightarrow> (\<forall>i \<in> set (tl is'). recsOf (lookup (resPages res)) i \<noteq> []))"

text \<open>
  The records of a chain ascend strictly by id from the first page to the last, and no
  page but the head is empty.
\<close>

definition primaryOrdered :: "(int \<Rightarrow> PageData option) \<Rightarrow> int list \<Rightarrow> bool" where
  "primaryOrdered m is \<longleftrightarrow>
     sorted_wrt (<) (map rid (chainRecs m is)) \<and> (\<forall>i \<in> set (tl is). recsOf m i \<noteq> [])"

text \<open>
  The invariant: page ids are distinct, positive and bounded by the counter; the pages of
  each index form one doubly linked chain; the primary chain is ordered.
\<close>

definition stateInv :: "EngineState \<Rightarrow> bool" where
  "stateInv s \<longleftrightarrow>
     baseInv (pages s) (pageCounter s)
     \<and> (\<exists>is. chainOf (lookup (pages s)) PRIMARY is \<and> primaryOrdered (lookup (pages s)) is)
     \<and> (\<exists>js. chainOf (lookup (pages s)) SECONDARY js)"

text \<open>The log entry that closes every \<open>insertRecord\<close> call.\<close>

definition committedLog :: "LogEntry list \<Rightarrow> int \<Rightarrow> string \<Rightarrow> LogEntry list" where
  "committedLog ls i v =
     addLog ls (''Transaction Committed: Inserted ('' @ show_int i @ '', '' @ dq @ v @ dq @ '').'')
       info"

text \<open>The operations on the engine a caller has: insert and reset.\<close>

datatype Operation = Insert int string | Reset

fun applyOp :: "(string \<Rightarrow> string \<Rightarrow> int) \<Rightarrow> EngineState \<Rightarrow> Operation \<Rightarrow> EngineState option" where
  "applyOp lc s (Insert i v) = insertRecord lc s i v"
| "applyOp lc s Reset = Some resetEngine"

fun runOps :: "(string \<Rightarrow> string \<Rightarrow> int) \<Rightarrow> EngineState \<Rightarrow> Operation list \<Rightarrow> EngineState option" where
  "runOps lc s [] = Some s"
| "runOps lc s (x # xs) = (case applyOp lc s x of None \<Rightarrow> None | Some s' \<Rightarrow> runOps lc s' xs)"

text \<open>
  Reading a chain from its head to its tail: start at the page of the index type that has
  no previous page and follow \<open>nextPageId\<close> until it is \<open>null\<close>.  A chain of an array of
  \<open>n\<close> pages that has not ended after \<open>n\<close> pages is cyclic: the result is \<open>None\<close>.
\<close>

fun chainFrom :: "nat \<Rightarrow> PageData list \<Rightarrow> PageData option \<Rightarrow> PageData list option" where
  "chainFrom fuel ps None = Some []"
| "chainFrom 0 ps (Some p) = None"
| "chainFrom (Suc fuel) ps (Some p) =
     (case nextPageId p of
        None \<Rightarrow> Some [p]
      | Some n \<Rightarrow> map_option ((#) p) (chainFrom fuel ps (find (\<lambda>q. pid q = n) ps)))"

definition readChain :: "PageData list \<Rightarrow> IndexType \<Rightarrow> PageData list option" where
  "readChain ps t =
     chainFrom (length ps) ps (find (\<lambda>p. indexType p = t \<and> prevPageId p = None) ps)"

text \<open>
  Every forward link has its back-reference and every backward link its forward
  reference: if page A's \<open>nextPageId\<close> is B then the page with id B exists and its
  \<open>prevPageId\<close> is A, and the other way round.
\<close>

definition linksConsistent :: "PageData list \<Rightarrow> bool" where
  "linksConsistent ps \<longleftrightarrow>
     (\<forall>a \<in> set ps. \<forall>b. nextPageId a = Some b \<longrightarrow>
        (\<exists>pb. find (\<lambda>q. pid q = b) ps = Some pb \<and> prevPageId pb = Some (pid a)))
     \<and> (\<forall>a \<in> set ps. \<forall>b. prevPageId a = Some b \<longrightarrow>
        (\<exists>pb. find (\<lambda>q. pid q = b) ps = Some pb \<and> nextPageId pb = Some (pid a)))"

text \<open>The pages that the ids \<open>is\<close> name.\<close>

definition pagesAt :: "(int \<Rightarrow> PageData option) \<Rightarrow> int list \<Rightarrow> PageData list" where
  "pagesAt m is = concat (map (\<lambda>i. case m i of None \<Rightarrow> [] | Some p \<Rightarrow> [p]) is)"

text \<open>The ids of the records of the primary index.\<close>

definition primaryKeys :: "EngineState \<Rightarrow> int set" where
  "primaryKeys s = {rid r |r p. p \<in> set (pages s) \<and> indexType p = PRIMARY \<and> r \<in> set (records p)}"

text \<open>Three inserts, the third with the id of the first.\<close>

definition repeatState :: "EngineState option" where
  "repeatState =
     insertAll strCompare initializeEngine [(1, ''Alice''), (2, ''Bob''), (1, ''Carol'')]"

text \<open>Two inserts.\<close>

definition pairState :: "EngineState option" where
  "pairState = insertAll strCompare initializeEngine [(1, ''Alice''), (2, ''Bob'')]"

text \<open>The five inserts of the scenario, as operations.\<close>

definition scenarioOps :: "Operation list" where
  "scenarioOps =
     [Insert 1 ''Alice'', Insert 2 ''Bob'', Insert 3 ''Charlie'', Insert 4 ''Dave'',
      Insert 5 ''Eve'']"

text \<open>An insert, a reset, and four inserts, which fill the first page.\<close>

definition restartOps :: "Operation list" where
  "restartOps =
     [Insert 1 ''Alice'', Reset, Insert 1 ''Alice'', Insert 2 ''Bob'', Insert 3 ''Charlie'',
      Insert 4 ''Dave'']"

text \<open>
  The walk over the secondary index as a recursion over the list of the pages it visits.
\<close>

fun scanChain :: "PageData list \<Rightarrow> string \<Rightarrow> Sim \<Rightarrow> SecondaryExit" where
  "scanChain [] name st = NoEntry st"
| "scanChain (c # cs) name st =
     (case find (\<lambda>r. rvalue r = name) (records c) of
        Some found \<Rightarrow>
          FoundEntry
            (addStep (addStep st (msgScanSecondary (pid c)) (pid c) SCAN_PAGE None)
               (msgFoundEntry name (rid found) (pid c)) (pid c) FOUND_INDEX_ENTRY
               (Some (rid found)))
            c (rid found)
      | None \<Rightarrow> scanChain cs name (addStep st (msgScanSecondary (pid c)) (pid c) SCAN_PAGE None))"

text \<open>The ids of the entries of the secondary index.\<close>

definition secondaryKeys :: "EngineState \<Rightarrow> int set" where
  "secondaryKeys s =
     {rid r |r p. p \<in> set (pages s) \<and> indexType p = SECONDARY \<and> r \<in> set (records p)}"

section \<open>Sequence numbers of the steps\<close>

lemma simOk_emptySim: "simOk emptySim"
  by (simp add: simOk_def emptySim_def)

lemma simOk_addStep: "simOk st \<Longrightarrow> simOk (addStep st msg pg ty rc)"
  by (simp add: simOk_def addStep_def)

lemma scanPrimaryById_simOk:
  assumes "scanPrimaryById cur ps k st = Some ex"
  shows "simOk st \<longrightarrow> simOk (exitSim ex)"
  by (rule scanPrimaryById.raw_induct
        [where P = "\<lambda>cur ps k st ex. simOk st \<longrightarrow> simOk (exitSim ex)", OF _ assms])
     (auto split: option.splits if_splits simp: simOk_addStep)

lemma scanSecondary_simOk:
  assumes "scanSecondary cur ps name st = Some ex"
  shows "simOk st \<longrightarrow> simOk (secondarySim ex)"
  by (rule scanSecondary.raw_induct
        [where P = "\<lambda>cur ps k st ex. simOk st \<longrightarrow> simOk (secondarySim ex)", OF _ assms])
     (auto split: option.splits if_splits simp: simOk_addStep)

lemma scanPrimaryByPk_simOk:
  assumes "scanPrimaryByPk cur ps k st = Some ex"
  shows "simOk st \<longrightarrow> simOk (exitSim ex)"
  by (rule scanPrimaryByPk.raw_induct
        [where P = "\<lambda>cur ps k st ex. simOk st \<longrightarrow> simOk (exitSim ex)", OF _ assms])
     (auto split: option.splits if_splits simp: simOk_addStep)

lemma simulateById_simOk:
  assumes "simulateById ps k = Some sts"
  shows "map stepId sts = [0..<length sts]"
proof -
  let ?st0 = "addStep emptySim (msgQueryById k) 0 FINISHED None"
  have ok0: "simOk ?st0" by (simp add: simOk_addStep simOk_emptySim)
  from assms obtain ex where ex: "scanPrimaryById (primaryHead ps) ps k ?st0 = Some ex"
    by (auto simp: simulateById_def split: option.splits)
  with ok0 have ok: "simOk (exitSim ex)" using scanPrimaryById_simOk by blast
  show ?thesis
  proof (cases ex)
    case (Returned st)
    with assms ex ok show ?thesis by (simp add: simulateById_def simOk_def)
  next
    case (LeftLoop st)
    with ok have "simOk (addStep st (msgNotFoundById k) 0 FINISHED None)"
      by (simp add: simOk_addStep)
    with assms ex LeftLoop show ?thesis by (auto simp: simulateById_def simOk_def)
  qed
qed

lemma simulateByName_simOk:
  assumes "simulateByName ps cov name = Some sts"
  shows "map stepId sts = [0..<length sts]"
proof -
  let ?st0 = "addStep emptySim (msgQueryByName cov name) 0 FINISHED None"
  have ok0: "simOk ?st0" by (simp add: simOk_addStep simOk_emptySim)
  from assms obtain ex where ex: "scanSecondary (secondaryHead ps) ps name ?st0 = Some ex"
    by (auto simp: simulateByName_def split: option.splits)
  with ok0 have ok: "simOk (secondarySim ex)" using scanSecondary_simOk by blast
  show ?thesis
  proof (cases ex)
    case (NoEntry st)
    with ok have "simOk (addStep st (msgNameNotFound name) 0 FINISHED None)"
      by (simp add: simOk_addStep)
    with assms ex NoEntry show ?thesis by (auto simp: simulateByName_def simOk_def)
  next
    case (FoundEntry st cur pk)
    show ?thesis
    proof (cases cov)
      case True
      from ok FoundEntry have "simOk (addStep st msgCovering (pid cur) FINISHED (Some pk))"
        by (simp add: simOk_addStep)
      with assms ex FoundEntry True show ?thesis by (auto simp: simulateByName_def simOk_def)
    next
      case False
      let ?st1 = "addStep st (msgJump pk) (pid cur) JUMP_TO_PK (Some pk)"
      from ok FoundEntry have ok1: "simOk ?st1" by (simp add: simOk_addStep)
      from assms ex FoundEntry False obtain ex' where
        ex': "scanPrimaryByPk (primaryHead ps) ps pk ?st1 = Some ex'"
        and sts: "sts = steps (exitSim ex')"
        by (auto simp: simulateByName_def split: option.splits LoopExit.splits)
      from ex' ok1 have "simOk (exitSim ex')" using scanPrimaryByPk_simOk by blast
      with sts show ?thesis by (simp add: simOk_def)
    qed
  qed
qed

lemma stepIds_numbered:
  assumes "simulateSelectQuery state q = Some sts" and "i < length sts"
  shows "stepId (sts ! i) = i"
proof -
  from assms(1) have "map stepId sts = [0..<length sts]"
    by (cases q) (auto simp: simulateSelectQuery_def dest: simulateById_simOk simulateByName_simOk)
  then have "map stepId sts ! i = [0..<length sts] ! i" by simp
  with assms(2) show ?thesis by simp
qed

section \<open>The snapshot and the display flags\<close>

lemma simplePage_withFlags: "simplePage (withFlags d sp h n rh p) = simplePage p"
  by (simp add: simplePage_def withFlags_def comp_def)

section \<open>The shape of the step sequences\<close>

lemma scansIn_refl: "scansIn S st st"
  by (simp add: scansIn_def)

lemma scansIn_one: "p \<in> S \<Longrightarrow> scansIn S st (addStep st m p SCAN_PAGE r)"
  by (simp add: scansIn_def addStep_def)

lemma scansIn_step:
  assumes "p \<in> S" and "scansIn S (addStep st m p SCAN_PAGE r) st'"
  shows "scansIn S st st'"
proof -
  from assms(2) obtain new where
    n: "steps st' = steps (addStep st m p SCAN_PAGE r) @ new"
       "\<forall>x \<in> set new. stepType x = SCAN_PAGE \<and> targetPageId x \<in> S"
    by (auto simp: scansIn_def)
  let ?x = "\<lparr>stepId = nextStepId st, stepMessage = m, targetPageId = p,
             targetRecordId = r, stepType = SCAN_PAGE\<rparr>"
  from n(1) have "steps st' = steps st @ (?x # new)" by (simp add: addStep_def)
  moreover from n(2) assms(1)
  have "\<forall>x \<in> set (?x # new). stepType x = SCAN_PAGE \<and> targetPageId x \<in> S" by simp
  ultimately show ?thesis unfolding scansIn_def by blast
qed

lemma find_SomeD: "find P xs = Some x \<Longrightarrow> P x \<and> x \<in> set xs"
  by (induction xs) (auto split: if_splits)

lemma find_next_in:
  assumes "linksInside ps S" "c \<in> set ps" "pid c \<in> S"
    and "find (\<lambda>p. Some (pid p) = nextPageId c) ps = Some q"
  shows "q \<in> set ps \<and> pid q \<in> S"
proof -
  from find_SomeD [OF assms(4)] have q: "q \<in> set ps" and "Some (pid q) = nextPageId c"
    by blast+
  then have "nextPageId c = Some (pid q)" by (rule_tac sym)
  with assms(1-3) have "pid q \<in> S" unfolding linksInside_def by blast
  with q show ?thesis by blast
qed

lemma secondaryShape_NoEntry [simp]:
  "secondaryShape S ps name st (NoEntry st') = scansIn S st st'"
  by (simp add: secondaryShape_def)

lemma secondaryShape_FoundI:
  assumes "scansIn S st mid" "c \<in> set ps" "pid c \<in> S" "r \<in> set (records c)" "rvalue r = name"
  shows "secondaryShape S ps name st
           (FoundEntry (addStep mid (msgFoundEntry name (rid r) (pid c)) (pid c)
              FOUND_INDEX_ENTRY (Some (rid r))) c (rid r))"
proof -
  let ?st' = "addStep mid (msgFoundEntry name (rid r) (pid c)) (pid c)
                FOUND_INDEX_ENTRY (Some (rid r))"
  have "\<exists>m. scansIn S st m
          \<and> ?st' = addStep m (msgFoundEntry name (rid r) (pid c)) (pid c)
                     FOUND_INDEX_ENTRY (Some (rid r))"
    using assms(1) by (intro exI [of _ mid]) simp
  moreover have "\<exists>r' \<in> set (records c). rvalue r' = name \<and> rid r' = rid r"
    using assms(4,5) by (intro bexI [of _ r]) simp_all
  ultimately show ?thesis
    unfolding secondaryShape_def using assms(2,3) by (simp only: SecondaryExit.case)
qed

lemma secondaryShape_FoundE:
  assumes "secondaryShape S ps name st (FoundEntry st' c pk)"
  obtains mid r where "scansIn S st mid"
    "st' = addStep mid (msgFoundEntry name pk (pid c)) (pid c) FOUND_INDEX_ENTRY (Some pk)"
    "c \<in> set ps" "pid c \<in> S" "r \<in> set (records c)" "rvalue r = name" "rid r = pk"
proof -
  from assms have a: "\<exists>mid. scansIn S st mid
      \<and> st' = addStep mid (msgFoundEntry name pk (pid c)) (pid c) FOUND_INDEX_ENTRY (Some pk)"
    and b: "c \<in> set ps" "pid c \<in> S"
    and c: "\<exists>r \<in> set (records c). rvalue r = name \<and> rid r = pk"
    unfolding secondaryShape_def by (simp_all only: SecondaryExit.case)
  from a obtain mid where "scansIn S st mid"
      "st' = addStep mid (msgFoundEntry name pk (pid c)) (pid c) FOUND_INDEX_ENTRY (Some pk)"
    by (elim exE conjE)
  moreover from c obtain r where "r \<in> set (records c)" "rvalue r = name" "rid r = pk"
    by (elim bexE conjE)
  ultimately show ?thesis using b that by metis
qed

lemma scanSecondary_shape:
  assumes "scanSecondary cur ps name st = Some ex"
  shows "(\<forall>c. cur = Some c \<longrightarrow> c \<in> set ps \<and> pid c \<in> S) \<longrightarrow> linksInside ps S
           \<longrightarrow> secondaryShape S ps name st ex"
proof (rule scanSecondary.raw_induct
        [where P = "\<lambda>cur ps name st ex.
           (\<forall>c. cur = Some c \<longrightarrow> c \<in> set ps \<and> pid c \<in> S) \<longrightarrow> linksInside ps S
             \<longrightarrow> secondaryShape S ps name st ex", OF _ assms], goal_cases)
  case (1 f cur ps name st ex)
  show ?case
  proof (intro impI)
    assume hd: "\<forall>c. cur = Some c \<longrightarrow> c \<in> set ps \<and> pid c \<in> S" and li: "linksInside ps S"
    show "secondaryShape S ps name st ex"
    proof (cases cur)
      case None
      with 1(2) have "ex = NoEntry st" by simp
      then show ?thesis by (simp add: scansIn_refl)
    next
      case (Some c)
      with hd have c: "c \<in> set ps" "pid c \<in> S" by auto
      let ?st1 = "addStep st (msgScanSecondary (pid c)) (pid c) SCAN_PAGE None"
      have one: "scansIn S st ?st1" using c(2) by (rule scansIn_one)
      show ?thesis
      proof (cases "find (\<lambda>r. rvalue r = name) (records c)")
        case (Some found)
        then have fr: "found \<in> set (records c)" "rvalue found = name"
          by (auto simp: find_Some_iff)
        from 1(2) \<open>cur = Some c\<close> Some
        have "ex = FoundEntry (addStep ?st1 (msgFoundEntry name (rid found) (pid c)) (pid c)
                      FOUND_INDEX_ENTRY (Some (rid found))) c (rid found)" by simp
        then show ?thesis using secondaryShape_FoundI [OF one c fr] by simp
      next
        case None
        show ?thesis
        proof (cases "truthy (nextPageId c)")
          case True
          let ?nx = "find (\<lambda>p. Some (pid p) = nextPageId c) ps"
          from 1(2) \<open>cur = Some c\<close> None True have run: "f ?nx ps name ?st1 = Some ex" by simp
          have "\<forall>q. ?nx = Some q \<longrightarrow> q \<in> set ps \<and> pid q \<in> S"
            using find_next_in [OF li c] by blast
          with 1(1) [OF run] li have sh: "secondaryShape S ps name ?st1 ex" by blast
          show ?thesis
          proof (cases ex)
            case (NoEntry st')
            with sh have "scansIn S ?st1 st'" by simp
            with c(2) have "scansIn S st st'" by (rule scansIn_step)
            with NoEntry show ?thesis by simp
          next
            case (FoundEntry st' c' pk)
            from sh [unfolded FoundEntry] obtain mid r where m: "scansIn S ?st1 mid"
              "st' = addStep mid (msgFoundEntry name pk (pid c')) (pid c') FOUND_INDEX_ENTRY (Some pk)"
              "c' \<in> set ps" "pid c' \<in> S" "r \<in> set (records c')" "rvalue r = name" "rid r = pk"
              by (rule secondaryShape_FoundE)
            from c(2) m(1) have "scansIn S st mid" by (rule scansIn_step)
            from secondaryShape_FoundI [OF this m(3-6)] m(2,7) FoundEntry
            show ?thesis by simp
          qed
        next
          case False
          with 1(2) \<open>cur = Some c\<close> None have "ex = NoEntry ?st1" by simp
          with one show ?thesis by simp
        qed
      qed
    qed
  qed
qed

lemma endsFound_now: "endsFound st (addStep (addStep st m p SCAN_PAGE r) m' p' FOUND_DATA k) k"
  unfolding endsFound_def using scansIn_one [of p UNIV st m r] by blast

lemma endsFound_step:
  assumes "endsFound (addStep st m p SCAN_PAGE r) st' k"
  shows "endsFound st st' k"
proof -
  from assms obtain mid m' p' where a: "scansIn UNIV (addStep st m p SCAN_PAGE r) mid"
    and b: "st' = addStep mid m' p' FOUND_DATA k"
    unfolding endsFound_def by blast
  from a have "scansIn UNIV st mid" by (rule scansIn_step [rotated]) simp
  with b show ?thesis unfolding endsFound_def by blast
qed

lemma loopShape_step:
  assumes "loopShape (addStep st m p SCAN_PAGE r) ex k"
  shows "loopShape st ex k"
proof (cases ex)
  case (Returned st')
  with assms show ?thesis by (simp add: loopShape_def endsFound_step)
next
  case (LeftLoop st')
  with assms have "scansIn UNIV (addStep st m p SCAN_PAGE r) st'" by (simp add: loopShape_def)
  then have "scansIn UNIV st st'" by (rule scansIn_step [rotated]) simp
  with LeftLoop show ?thesis by (simp add: loopShape_def)
qed

lemma scanPrimaryById_shape:
  assumes "scanPrimaryById cur ps k st = Some ex"
  shows "loopShape st ex k"
proof (rule scanPrimaryById.raw_induct
        [where P = "\<lambda>cur ps k st ex. loopShape st ex k", OF _ assms], goal_cases)
  case (1 f cur ps k st ex)
  show ?case
  proof (cases cur)
    case None
    with 1(2) have "ex = LeftLoop st" by simp
    then show ?thesis by (simp add: loopShape_def scansIn_refl)
  next
    case (Some c)
    let ?st1 = "addStep st (msgScanPrimary (pid c)) (pid c) SCAN_PAGE None"
    consider (found) "\<exists>r \<in> set (records c). Some (rid r) = k"
      | (go) "\<not> (\<exists>r \<in> set (records c). Some (rid r) = k)" "truthy (nextPageId c) \<and> maxIdLess c k"
      | (stop) "\<not> (\<exists>r \<in> set (records c). Some (rid r) = k)" "\<not> (truthy (nextPageId c) \<and> maxIdLess c k)"
      by blast
    then show ?thesis
    proof cases
      case found
      with 1(2) Some
      have "ex = Returned (addStep ?st1 (msgFoundRecord k (pid c)) (pid c) FOUND_DATA k)"
        by (simp del: bex_simps)
      then show ?thesis by (simp add: loopShape_def endsFound_now)
    next
      case go
      with 1(2) Some
      have "f (find (\<lambda>p. Some (pid p) = nextPageId c) ps) ps k ?st1 = Some ex"
        by (simp del: bex_simps)
      from 1(1) [OF this] show ?thesis by (rule loopShape_step)
    next
      case stop
      with 1(2) Some have "ex = LeftLoop ?st1" by (simp del: bex_simps)
      then show ?thesis by (simp add: loopShape_def scansIn_one)
    qed
  qed
qed

lemma scanPrimaryByPk_shape:
  assumes "scanPrimaryByPk cur ps pk st = Some ex"
  shows "loopShape st ex (Some pk)"
proof (rule scanPrimaryByPk.raw_induct
        [where P = "\<lambda>cur ps pk st ex. loopShape st ex (Some pk)", OF _ assms], goal_cases)
  case (1 f cur ps pk st ex)
  show ?case
  proof (cases cur)
    case None
    with 1(2) have "ex = LeftLoop st" by simp
    then show ?thesis by (simp add: loopShape_def scansIn_refl)
  next
    case (Some c)
    let ?st1 = "addStep st (msgScanPrimaryForPk (pid c) pk) (pid c) SCAN_PAGE None"
    consider (found) "\<exists>r \<in> set (records c). rid r = pk"
      | (go) "\<not> (\<exists>r \<in> set (records c). rid r = pk)" "truthy (nextPageId c)"
      | (stop) "\<not> (\<exists>r \<in> set (records c). rid r = pk)" "\<not> truthy (nextPageId c)"
      by blast
    then show ?thesis
    proof cases
      case found
      with 1(2) Some
      have "ex = Returned (addStep ?st1 (msgLookupSuccessful pk) (pid c) FOUND_DATA (Some pk))"
        by (simp del: bex_simps)
      then show ?thesis by (simp add: loopShape_def endsFound_now)
    next
      case go
      with 1(2) Some
      have "f (find (\<lambda>p. Some (pid p) = nextPageId c) ps) ps pk ?st1 = Some ex"
        by (simp del: bex_simps)
      from 1(1) [OF this] show ?thesis by (rule loopShape_step)
    next
      case stop
      with 1(2) Some have "ex = LeftLoop ?st1" by (simp del: bex_simps)
      then show ?thesis by (simp add: loopShape_def scansIn_one)
    qed
  qed
qed

lemma scansIn_steps:
  assumes "scansIn S st st'"
  obtains new where "steps st' = steps st @ new" "\<forall>x \<in> set new. \<not> isTerminal (stepType x)"
  using assms unfolding scansIn_def isTerminal_def by auto

lemma endsFound_steps:
  assumes "endsFound st st' k"
  obtains new t where "steps st' = steps st @ new @ [t]" "\<forall>x \<in> set new. \<not> isTerminal (stepType x)"
    "stepType t = FOUND_DATA"
proof -
  from assms obtain mid m p where a: "scansIn UNIV st mid" and b: "st' = addStep mid m p FOUND_DATA k"
    unfolding endsFound_def by blast
  from a obtain new where n: "steps mid = steps st @ new" "\<forall>x \<in> set new. \<not> isTerminal (stepType x)"
    by (rule scansIn_steps)
  let ?t = "\<lparr>stepId = nextStepId mid, stepMessage = m, targetPageId = p,
             targetRecordId = k, stepType = FOUND_DATA\<rparr>"
  from b n(1) have "steps st' = steps st @ new @ [?t]" by (simp add: addStep_def)
  with n(2) show ?thesis using that [of new ?t] by simp
qed

lemma steps_addStep_empty:
  "steps (addStep emptySim m p ty r) =
     [\<lparr>stepId = 0, stepMessage = m, targetPageId = p, targetRecordId = r, stepType = ty\<rparr>]"
  by (simp add: addStep_def emptySim_def)

lemma midShapeI:
  assumes "sts = q # mid @ fin" "stepType q = FINISHED" "targetPageId q = 0"
    "\<forall>x \<in> set mid. \<not> isTerminal (stepType x)" "length fin \<le> 1"
  shows "midShape sts"
  unfolding midShape_def using assms by blast

lemma simulateById_shape:
  assumes "simulateById ps k = Some sts"
  shows "midShape sts \<and> 2 \<le> length sts \<and> isTerminal (stepType (last sts))"
proof -
  let ?q = "\<lparr>stepId = 0, stepMessage = msgQueryById k, targetPageId = 0,
             targetRecordId = None, stepType = FINISHED\<rparr>"
  let ?st0 = "addStep emptySim (msgQueryById k) 0 FINISHED None"
  have s0: "steps ?st0 = [?q]" by (rule steps_addStep_empty)
  from assms obtain ex where ex: "scanPrimaryById (primaryHead ps) ps k ?st0 = Some ex"
    by (auto simp: simulateById_def split: option.splits)
  then have sh: "loopShape ?st0 ex k" by (rule scanPrimaryById_shape)
  show ?thesis
  proof (cases ex)
    case (Returned st')
    with sh have "endsFound ?st0 st' k" by (simp add: loopShape_def)
    then obtain new t where n: "steps st' = steps ?st0 @ new @ [t]"
      "\<forall>x \<in> set new. \<not> isTerminal (stepType x)" "stepType t = FOUND_DATA"
      by (rule endsFound_steps)
    from assms ex Returned have "sts = steps st'" by (simp add: simulateById_def)
    with n(1) s0 have e: "sts = ?q # new @ [t]" by simp
    then have "midShape sts" using n(2) by (intro midShapeI [of sts ?q new "[t]"]) simp_all
    with e n(3) show ?thesis by (simp add: isTerminal_def)
  next
    case (LeftLoop st')
    with sh have "scansIn UNIV ?st0 st'" by (simp add: loopShape_def)
    then obtain new where n: "steps st' = steps ?st0 @ new"
      "\<forall>x \<in> set new. \<not> isTerminal (stepType x)"
      by (rule scansIn_steps)
    let ?t = "\<lparr>stepId = nextStepId st', stepMessage = msgNotFoundById k, targetPageId = 0,
               targetRecordId = None, stepType = FINISHED\<rparr>"
    from assms ex LeftLoop have "sts = steps (addStep st' (msgNotFoundById k) 0 FINISHED None)"
      by (simp add: simulateById_def)
    with n(1) s0 have e: "sts = ?q # new @ [?t]" by (simp add: addStep_def)
    then have "midShape sts" using n(2) by (intro midShapeI [of sts ?q new "[?t]"]) simp_all
    with e show ?thesis by (simp add: isTerminal_def)
  qed
qed

lemma simulateByName_shape:
  assumes "simulateByName ps cov name = Some sts"
  shows "midShape sts \<and> (cov \<longrightarrow> 2 \<le> length sts \<and> isTerminal (stepType (last sts)))"
proof -
  let ?q = "\<lparr>stepId = 0, stepMessage = msgQueryByName cov name, targetPageId = 0,
             targetRecordId = None, stepType = FINISHED\<rparr>"
  let ?st0 = "addStep emptySim (msgQueryByName cov name) 0 FINISHED None"
  have s0: "steps ?st0 = [?q]" by (rule steps_addStep_empty)
  from assms obtain ex where ex: "scanSecondary (secondaryHead ps) ps name ?st0 = Some ex"
    by (auto simp: simulateByName_def split: option.splits)
  have "linksInside ps UNIV" by (simp add: linksInside_def)
  moreover have "\<forall>c. secondaryHead ps = Some c \<longrightarrow> c \<in> set ps \<and> pid c \<in> UNIV"
    by (auto simp: secondaryHead_def dest: find_SomeD)
  ultimately have sh: "secondaryShape UNIV ps name ?st0 ex"
    using scanSecondary_shape [OF ex, of UNIV] by blast
  show ?thesis
  proof (cases ex)
    case (NoEntry st')
    with sh have "scansIn UNIV ?st0 st'" by simp
    then obtain new where n: "steps st' = steps ?st0 @ new"
      "\<forall>x \<in> set new. \<not> isTerminal (stepType x)"
      by (rule scansIn_steps)
    let ?t = "\<lparr>stepId = nextStepId st', stepMessage = msgNameNotFound name, targetPageId = 0,
               targetRecordId = None, stepType = FINISHED\<rparr>"
    from assms ex NoEntry have "sts = steps (addStep st' (msgNameNotFound name) 0 FINISHED None)"
      by (simp add: simulateByName_def)
    with n(1) s0 have e: "sts = ?q # new @ [?t]" by (simp add: addStep_def)
    then have "midShape sts" using n(2) by (intro midShapeI [of sts ?q new "[?t]"]) simp_all
    with e show ?thesis by (simp add: isTerminal_def)
  next
    case (FoundEntry st' c pk)
    from sh [unfolded FoundEntry] obtain mid where m: "scansIn UNIV ?st0 mid"
      "st' = addStep mid (msgFoundEntry name pk (pid c)) (pid c) FOUND_INDEX_ENTRY (Some pk)"
      by (rule secondaryShape_FoundE)
    from m(1) obtain new where n: "steps mid = steps ?st0 @ new"
      "\<forall>x \<in> set new. \<not> isTerminal (stepType x)"
      by (rule scansIn_steps)
    let ?e = "\<lparr>stepId = nextStepId mid, stepMessage = msgFoundEntry name pk (pid c),
               targetPageId = pid c, targetRecordId = Some pk, stepType = FOUND_INDEX_ENTRY\<rparr>"
    from m(2) n(1) s0 have st': "steps st' = ?q # new @ [?e]" by (simp add: addStep_def)
    have ne: "\<forall>x \<in> set (new @ [?e]). \<not> isTerminal (stepType x)"
      using n(2) by (simp add: isTerminal_def)
    show ?thesis
    proof (cases cov)
      case True
      let ?t = "\<lparr>stepId = nextStepId st', stepMessage = msgCovering, targetPageId = pid c,
                 targetRecordId = Some pk, stepType = FINISHED\<rparr>"
      from assms ex FoundEntry True
      have "sts = steps (addStep st' msgCovering (pid c) FINISHED (Some pk))"
        by (simp add: simulateByName_def)
      with st' have e: "sts = ?q # (new @ [?e]) @ [?t]" by (simp add: addStep_def)
      then have "midShape sts" using ne
        by (intro midShapeI [of sts ?q "new @ [?e]" "[?t]"]) simp_all
      with e show ?thesis by (simp add: isTerminal_def)
    next
      case False
      let ?j = "\<lparr>stepId = nextStepId st', stepMessage = msgJump pk, targetPageId = pid c,
                 targetRecordId = Some pk, stepType = JUMP_TO_PK\<rparr>"
      let ?st1 = "addStep st' (msgJump pk) (pid c) JUMP_TO_PK (Some pk)"
      from st' have st1: "steps ?st1 = ?q # new @ [?e, ?j]" by (simp add: addStep_def)
      have nj: "\<forall>x \<in> set (new @ [?e, ?j]). \<not> isTerminal (stepType x)"
        using n(2) by (simp add: isTerminal_def)
      from assms ex FoundEntry False obtain ex' where
        ex': "scanPrimaryByPk (primaryHead ps) ps pk ?st1 = Some ex'"
        and sts: "sts = steps (exitSim ex')"
        by (auto simp: simulateByName_def split: option.splits LoopExit.splits)
      from ex' have sh': "loopShape ?st1 ex' (Some pk)" by (rule scanPrimaryByPk_shape)
      have "midShape sts"
      proof (cases ex')
        case (Returned st'')
        with sh' have "endsFound ?st1 st'' (Some pk)" by (simp add: loopShape_def)
        then obtain new2 t where n2: "steps st'' = steps ?st1 @ new2 @ [t]"
          "\<forall>x \<in> set new2. \<not> isTerminal (stepType x)"
          by (rule endsFound_steps)
        from sts Returned n2(1) st1 have "sts = ?q # ((new @ [?e, ?j]) @ new2) @ [t]" by simp
        moreover have "\<forall>x \<in> set ((new @ [?e, ?j]) @ new2). \<not> isTerminal (stepType x)"
          using nj n2(2) by auto
        ultimately show ?thesis
          by (intro midShapeI [of sts ?q "(new @ [?e, ?j]) @ new2" "[t]"]) simp_all
      next
        case (LeftLoop st'')
        with sh' have "scansIn UNIV ?st1 st''" by (simp add: loopShape_def)
        then obtain new2 where n2: "steps st'' = steps ?st1 @ new2"
          "\<forall>x \<in> set new2. \<not> isTerminal (stepType x)"
          by (rule scansIn_steps)
        from sts LeftLoop n2(1) st1 have "sts = ?q # ((new @ [?e, ?j]) @ new2) @ []" by simp
        moreover have "\<forall>x \<in> set ((new @ [?e, ?j]) @ new2). \<not> isTerminal (stepType x)"
          using nj n2(2) by auto
        ultimately show ?thesis
          by (intro midShapeI [of sts ?q "(new @ [?e, ?j]) @ new2" "[]"]) simp_all
      qed
      with False show ?thesis by simp
    qed
  qed
qed

lemma midShape_terminal_last:
  assumes "midShape sts" "0 < i" "i < length sts" "isTerminal (stepType (sts ! i))"
  shows "i = length sts - 1"
proof -
  from assms(1) obtain q mid fin where s: "sts = q # mid @ fin"
    and mid: "\<forall>x \<in> set mid. \<not> isTerminal (stepType x)" and fin: "length fin \<le> 1"
    unfolding midShape_def by blast
  from assms(2) obtain j where j: "i = Suc j" by (cases i) auto
  have "\<not> j < length mid"
  proof
    assume "j < length mid"
    then have "sts ! i = mid ! j" "mid ! j \<in> set mid" using s j by (simp_all add: nth_append)
    with mid assms(4) show False by simp
  qed
  moreover from assms(3) s j have "j < length mid + length fin" by simp
  ultimately have "j = length mid" "length fin = 1" using fin by linarith+
  with s j show ?thesis by simp
qed

lemma terminal_shape:
  assumes "simulateSelectQuery state q = Some sts"
  shows "sts \<noteq> [] \<and> stepType (hd sts) = FINISHED \<and> targetPageId (hd sts) = 0
       \<and> (\<forall>i. 0 < i \<and> i < length sts \<and> isTerminal (stepType (sts ! i)) \<longrightarrow> i = length sts - 1)
       \<and> ((case q of BY_NAME n \<Rightarrow> False | _ \<Rightarrow> True)
            \<longrightarrow> 2 \<le> length sts \<and> isTerminal (stepType (last sts)))"
proof -
  have ms: "midShape sts"
    using assms by (cases q) (auto simp: simulateSelectQuery_def dest: simulateById_shape simulateByName_shape)
  then obtain q0 mid fin where s: "sts = q0 # mid @ fin" "stepType q0 = FINISHED" "targetPageId q0 = 0"
    unfolding midShape_def by blast
  have "(case q of BY_NAME n \<Rightarrow> False | _ \<Rightarrow> True)
            \<longrightarrow> 2 \<le> length sts \<and> isTerminal (stepType (last sts))"
    using assms by (cases q) (auto simp: simulateSelectQuery_def dest: simulateById_shape simulateByName_shape)
  with s midShape_terminal_last [OF ms] show ?thesis by auto
qed

section \<open>The range-boundary break of a query by id\<close>

lemma walk_break:
  "walksById ps k p rest \<Longrightarrow> rangeBreak (last (p # rest)) k
     \<Longrightarrow> scanPrimaryById (Some p) ps k st = Some (LeftLoop (scanAll st (p # rest)))"
proof (induction rest arbitrary: p st)
  case Nil
  then show ?case
    by (subst scanPrimaryById.simps) (simp add: rangeBreak_def del: bex_simps)
next
  case (Cons q rest)
  from Cons.prems(1) have w: "\<forall>r \<in> set (records p). Some (rid r) \<noteq> k" "truthy (nextPageId p)"
    "maxIdLess p k" "find (\<lambda>x. Some (pid x) = nextPageId p) ps = Some q" "walksById ps k q rest"
    by simp_all
  from Cons.prems(2) have "rangeBreak (last (q # rest)) k" by simp
  from Cons.IH [OF w(5) this]
  have "scanPrimaryById (Some q) ps k (addStep st (msgScanPrimary (pid p)) (pid p) SCAN_PAGE None)
          = Some (LeftLoop (scanAll st (p # q # rest)))" by simp
  with w(1-4) show ?case
    by (subst scanPrimaryById.simps) (simp del: bex_simps)
qed

lemma scanAll_steps:
  "steps (scanAll st vs) =
     steps st @ map (\<lambda>i. \<lparr>stepId = nextStepId st + i, stepMessage = msgScanPrimary (pid (vs ! i)),
                          targetPageId = pid (vs ! i), targetRecordId = None,
                          stepType = SCAN_PAGE\<rparr>) [0..<length vs]
   \<and> nextStepId (scanAll st vs) = nextStepId st + length vs"
proof (induction vs arbitrary: st)
  case Nil
  then show ?case by simp
next
  case (Cons p vs)
  let ?st1 = "addStep st (msgScanPrimary (pid p)) (pid p) SCAN_PAGE None"
  have a: "steps ?st1 = steps st @ [\<lparr>stepId = nextStepId st, stepMessage = msgScanPrimary (pid p),
             targetPageId = pid p, targetRecordId = None, stepType = SCAN_PAGE\<rparr>]"
    and b: "nextStepId ?st1 = Suc (nextStepId st)"
    by (simp_all add: addStep_def)
  have "[0..<length (p # vs)] = 0 # map Suc [0..<length vs]"
    by (simp add: upt_conv_Cons map_Suc_upt del: upt_Suc)
  with Cons.IH [of ?st1] a b show ?case by (simp add: comp_def del: upt_Suc)
qed

lemma scanAll_types:
  "map stepType (steps (scanAll st vs)) = map stepType (steps st) @ replicate (length vs) SCAN_PAGE"
  by (simp add: scanAll_steps comp_def map_replicate_const)

lemma scanAll_targets:
  "map targetPageId (steps (scanAll st vs)) = map targetPageId (steps st) @ map pid vs"
proof -
  have "map (\<lambda>i. pid (vs ! i)) [0..<length vs] = map pid (map ((!) vs) [0..<length vs])"
    by (simp add: comp_def)
  also have "\<dots> = map pid vs" by (simp only: map_nth)
  finally show ?thesis by (simp add: scanAll_steps comp_def)
qed

text \<open>
  Claim C6, as amended.  For a \<open>BY_ID\<close> query whose page walk, from the head of the primary
  chain through the pages \<open>rest\<close>, exits via the range-boundary break, the simulation
  returns, and the returned sequence is the query-text step, one \<open>SCAN_PAGE\<close> step per
  visited page and then the not-found \<open>FINISHED\<close> step: the walk does not stop silently.
\<close>

theorem range_break_emits_not_found:
  assumes "primaryHead (pages state) = Some p"
    and "walksById (pages state) k p rest"
    and "rangeBreak (last (p # rest)) k"
  shows "\<exists>sts. simulateSelectQuery state (BY_ID k) = Some sts
     \<and> map stepType sts = FINISHED # replicate (Suc (length rest)) SCAN_PAGE @ [FINISHED]
     \<and> map targetPageId sts = 0 # map pid (p # rest) @ [0]
     \<and> last sts = \<lparr>stepId = length rest + 2, stepMessage = msgNotFoundById k, targetPageId = 0,
                    targetRecordId = None, stepType = FINISHED\<rparr>"
proof -
  let ?st0 = "addStep emptySim (msgQueryById k) 0 FINISHED None"
  let ?st1 = "scanAll ?st0 (p # rest)"
  let ?sts = "steps (addStep ?st1 (msgNotFoundById k) 0 FINISHED None)"
  have run: "scanPrimaryById (Some p) (pages state) k ?st0 = Some (LeftLoop ?st1)"
    using assms(2,3) by (rule walk_break)
  with assms(1) have r: "simulateSelectQuery state (BY_ID k) = Some ?sts"
    by (simp add: simulateSelectQuery_def simulateById_def)
  have n0: "nextStepId ?st0 = 1" "map stepType (steps ?st0) = [FINISHED]"
    "map targetPageId (steps ?st0) = [0]"
    by (simp_all add: addStep_def emptySim_def)
  have n1: "nextStepId ?st1 = length rest + 2"
    using scanAll_steps [of ?st0 "p # rest"] n0(1) by simp
  have sts: "?sts = steps ?st1 @ [\<lparr>stepId = length rest + 2, stepMessage = msgNotFoundById k,
               targetPageId = 0, targetRecordId = None, stepType = FINISHED\<rparr>]"
    using n1 by (simp add: addStep_def)
  have t: "map stepType ?sts = FINISHED # replicate (Suc (length rest)) SCAN_PAGE @ [FINISHED]"
    unfolding sts using scanAll_types [of ?st0 "p # rest"] n0(2) by simp
  have g: "map targetPageId ?sts = 0 # map pid (p # rest) @ [0]"
    unfolding sts using scanAll_targets [of ?st0 "p # rest"] n0(3) by simp
  have l: "last ?sts = \<lparr>stepId = length rest + 2, stepMessage = msgNotFoundById k,
               targetPageId = 0, targetRecordId = None, stepType = FINISHED\<rparr>"
    unfolding sts by simp
  from r t g l show ?thesis by (intro exI conjI)
qed

text \<open>
  The theorem at the state after eight inserts and the query for the absent key 6: the walk
  passes page 1 and breaks at page 3, whose largest key is 7.
\<close>

theorem range_break_emits_not_found_witness:
  "\<exists>s p q sts. longState = Some s \<and> primaryHead (pages s) = Some p
     \<and> walksById (pages s) (Some 6) p [q] \<and> rangeBreak (last [p, q]) (Some 6)
     \<and> simulateSelectQuery s (BY_ID (Some 6)) = Some sts
     \<and> map stepType sts = [FINISHED, SCAN_PAGE, SCAN_PAGE, FINISHED]
     \<and> map targetPageId sts = [0, 1, 3, 0]
     \<and> stepMessage (last sts) = ''Record 6 not found in Primary Index.''"
proof -
  define s where "s = the longState"
  define p where "p = the (primaryHead (pages s))"
  define q where "q = the (find (\<lambda>x. Some (pid x) = nextPageId p) (pages s))"
  have a: "longState = Some s" unfolding s_def by code_simp
  have b: "primaryHead (pages s) = Some p" unfolding p_def s_def by code_simp
  have c: "walksById (pages s) (Some 6) p [q]" unfolding q_def p_def s_def by code_simp
  have d: "rangeBreak (last (p # [q])) (Some 6)" unfolding q_def p_def s_def by code_simp
  have e: "map pid (p # [q]) = [1, 3]" unfolding q_def p_def s_def by code_simp
  have f: "msgNotFoundById (Some 6) = ''Record 6 not found in Primary Index.''" by code_simp
  from range_break_emits_not_found [OF b c d] obtain sts where
    sts: "simulateSelectQuery s (BY_ID (Some 6)) = Some sts"
      "map stepType sts = FINISHED # replicate (Suc (length [q])) SCAN_PAGE @ [FINISHED]"
      "map targetPageId sts = 0 # map pid (p # [q]) @ [0]"
      "last sts = \<lparr>stepId = length [q] + 2, stepMessage = msgNotFoundById (Some 6),
                    targetPageId = 0, targetRecordId = None, stepType = FINISHED\<rparr>"
    by (elim exE conjE)
  from sts(2) have t: "map stepType sts = [FINISHED, SCAN_PAGE, SCAN_PAGE, FINISHED]" by simp
  from sts(3) e have g: "map targetPageId sts = [0, 1, 3, 0]" by simp
  from sts(4) f have m: "stepMessage (last sts) = ''Record 6 not found in Primary Index.''" by simp
  from d have d': "rangeBreak (last [p, q]) (Some 6)" by simp
  from a b c d' sts(1) t g m show ?thesis by (intro exI conjI)
qed

text \<open>
  Claim C6 as stated fails: on the state after the inserts 1, 2, 4, 5, 6 the query for key 3
  breaks at the head page (largest key 4, next page present), and the returned sequence
  does end with the not-found step.
\<close>

theorem range_break_silent_counterexample:
  "\<exists>s p sts. gapState = Some s \<and> primaryHead (pages s) = Some p \<and> rangeBreak p (Some 3)
     \<and> simulateSelectQuery s (BY_ID (Some 3)) = Some sts
     \<and> map stepType sts = [FINISHED, SCAN_PAGE, FINISHED]
     \<and> stepMessage (last sts) = ''Record 3 not found in Primary Index.''"
proof -
  define s where "s = the gapState"
  define p where "p = the (primaryHead (pages s))"
  define sts where "sts = the (simulateSelectQuery s (BY_ID (Some 3)))"
  have a: "gapState = Some s" unfolding s_def by code_simp
  have b: "primaryHead (pages s) = Some p" unfolding p_def s_def by code_simp
  have c: "rangeBreak p (Some 3)" unfolding p_def s_def by code_simp
  have d: "simulateSelectQuery s (BY_ID (Some 3)) = Some sts" unfolding sts_def s_def by code_simp
  have e: "map stepType sts = [FINISHED, SCAN_PAGE, FINISHED]" unfolding sts_def s_def by code_simp
  have f: "stepMessage (last sts) = ''Record 3 not found in Primary Index.''"
    unfolding sts_def s_def by code_simp
  from a b c d e f show ?thesis by (intro exI conjI)
qed

section \<open>Array operations\<close>

lemma findIndex_Some:
  "findIndex P xs = Some k \<Longrightarrow> k < length xs \<and> P (xs ! k) \<and> (\<forall>j < k. \<not> P (xs ! j))"
proof (induction xs arbitrary: k)
  case Nil
  then show ?case by simp
next
  case (Cons x xs)
  show ?case
  proof (cases "P x")
    case True
    with Cons.prems show ?thesis by simp
  next
    case False
    with Cons.prems obtain i where i: "findIndex P xs = Some i" "k = Suc i"
      by (auto split: option.splits)
    from Cons.IH [OF i(1)] False i(2) show ?thesis
      by (auto simp: nth_Cons split: nat.splits)
  qed
qed

lemma findIndex_None: "findIndex P xs = None \<longleftrightarrow> (\<forall>x \<in> set xs. \<not> P x)"
  by (induction xs) (auto split: option.splits)

lemma findIndex_cong_map:
  "map f xs = map f ys \<Longrightarrow> findIndex (\<lambda>x. Q (f x)) xs = findIndex (\<lambda>x. Q (f x)) ys"
proof (induction xs arbitrary: ys)
  case Nil
  then show ?case by simp
next
  case (Cons x xs)
  then obtain y ys' where ys: "ys = y # ys'" "f x = f y" "map f xs = map f ys'" by (cases ys) auto
  with Cons.IH [OF ys(3)] show ?case by simp
qed

lemma map_pid_update: "k < length ps \<Longrightarrow> pid q = pid (ps ! k) \<Longrightarrow> map pid (ps[k := q]) = map pid ps"
  by (simp add: map_update list_update_same_conv)

lemma insort_cmp_length [simp]: "length (insort_cmp c x xs) = Suc (length xs)"
  by (induction xs) auto

lemma foldl_insort_length: "length (foldl (\<lambda>acc x. insort_cmp c x acc) acc xs) = length acc + length xs"
  by (induction xs arbitrary: acc) auto

lemma sort_cmp_length [simp]: "length (sort_cmp c xs) = length xs"
  by (simp add: sort_cmp_def foldl_insort_length)

section \<open>Splitting a full page\<close>

lemma splitPage_eq:
  "splitPage ps t k tp upd c ls =
     \<lparr>resPages = relinkNext (ps[k := splitKeep (ps ! k) upd (c + 1)]) (nextPageId tp) (c + 1)
                   @ [splitNew t tp upd (c + 1)],
      newPageCounter = c + 1,
      resLogs = addLog (addLog ls (''['' @ show_indexType t @ ''] Page '' @ show_int (pid tp)
                  @ '' full. Splitting...'') warning)
                 (''['' @ show_indexType t @ ''] Split Complete. Page ''
                  @ show_int (pid tp) @ '' -> Page '' @ show_int (c + 1) @ ''.'') success\<rparr>"
  by (simp add: splitPage_def Let_def relinkNext_def splitKeep_def splitNew_def createPage_def)

lemma relinkNext_length [simp]: "length (relinkNext ps nxt n) = length ps"
  by (simp add: relinkNext_def split: option.splits)

lemma relinkNext_pids [simp]: "map pid (relinkNext ps nxt n) = map pid ps"
  by (auto simp: relinkNext_def map_pid_update dest: findIndex_Some split: option.splits)

lemma relinkNext_nth:
  assumes "i < length ps"
  shows "pid (relinkNext ps nxt n ! i) = pid (ps ! i)
       \<and> indexType (relinkNext ps nxt n ! i) = indexType (ps ! i)
       \<and> records (relinkNext ps nxt n ! i) = records (ps ! i)
       \<and> nextPageId (relinkNext ps nxt n ! i) = nextPageId (ps ! i)"
  using assms
  by (auto simp: relinkNext_def nth_list_update dest: findIndex_Some split: option.splits)

lemma relinkNext_prev:
  assumes "findIndex (\<lambda>p. pid p = m) ps = Some j"
  shows "prevPageId (relinkNext ps (Some m) n ! j) = Some n"
  using assms findIndex_Some [OF assms] by (simp add: relinkNext_def)

text \<open>
  Claim C2, as amended.  For every page array in which the located target page (the page
  at the index \<open>k\<close> that \<open>findIndex\<close> gives for the target id) holds exactly
  \<open>PAGE_CAPACITY\<close> records, inserting one more record into that index, unless the index is
  \<open>PRIMARY\<close> and the page already holds the record's id, splits the page: the call
  returns, the counter is incremented, the original page keeps its id and holds the first
  3 of the sorted 5 records, a new page with the incremented counter as id is appended
  and holds the last 2, the new page's \<open>prevPageId\<close> is the original page's id, the
  original's \<open>nextPageId\<close> is the new page's id, the new page's \<open>nextPageId\<close> is the
  original's former \<open>nextPageId\<close>, and the former next page, if there is one, has its
  \<open>prevPageId\<close> set to the new page's id.
\<close>

theorem full_page_splits:
  assumes "findTarget (chainHead ps t) ps cmp r = Some target"
    and "target \<noteq> - 1"
    and "findIndex (\<lambda>p. pid p = target) ps = Some k"
    and "length (records (ps ! k)) = PAGE_CAPACITY"
    and "\<not> (t = PRIMARY \<and> (\<exists>x \<in> set (records (ps ! k)). rid x = rid r))"
  shows "\<exists>res. insertIntoIndex ps t r cmp c ls = Some res
     \<and> newPageCounter res = c + 1
     \<and> length (resPages res) = Suc (length ps)
     \<and> length (sort_cmp cmp (records (ps ! k) @ [r])) = 5
     \<and> pid (resPages res ! k) = pid (ps ! k)
     \<and> records (resPages res ! k) = take 3 (sort_cmp cmp (records (ps ! k) @ [r]))
     \<and> nextPageId (resPages res ! k) = Some (c + 1)
     \<and> pid (last (resPages res)) = c + 1
     \<and> indexType (last (resPages res)) = t
     \<and> records (last (resPages res)) = drop 3 (sort_cmp cmp (records (ps ! k) @ [r]))
     \<and> prevPageId (last (resPages res)) = Some (pid (ps ! k))
     \<and> nextPageId (last (resPages res)) = nextPageId (ps ! k)
     \<and> (\<forall>n j. nextPageId (ps ! k) = Some n \<longrightarrow> findIndex (\<lambda>p. pid p = n) ps = Some j
           \<longrightarrow> prevPageId (resPages res ! j) = Some (c + 1))"
proof -
  let ?tp = "ps ! k"
  let ?upd = "sort_cmp cmp (records ?tp @ [r])"
  let ?p1 = "ps[k := ?tp\<lparr>records := ?upd, isDirty := Some True, isSplitting := Some False\<rparr>]"
  let ?A = "?p1[k := splitKeep (?p1 ! k) ?upd (c + 1)]"
  let ?B = "relinkNext ?A (nextPageId ?tp) (c + 1)"
  let ?res = "splitPage ?p1 t k ?tp ?upd c ls"
  from findIndex_Some [OF assms(3)] have k: "k < length ps" by simp
  from assms(4) have len: "length ?upd = 5" by (simp add: PAGE_CAPACITY_def)
  then have half: "(length ?upd + 1) div 2 = 3" by simp
  from assms(5) have nd: "(t = PRIMARY \<and> (\<exists>x \<in> set (records ?tp). rid x = rid r)) = False"
    by blast
  from assms(1-3) len have run: "insertIntoIndex ps t r cmp c ls = Some ?res"
    by (simp add: insertIntoIndex_def Let_def PAGE_CAPACITY_def nd del: bex_simps)
  have pages: "resPages ?res = ?B @ [splitNew t ?tp ?upd (c + 1)]"
    and cnt: "newPageCounter ?res = c + 1"
    by (simp_all add: splitPage_eq)
  have lenB: "length ?B = length ps" by simp
  have Ak: "?A ! k = splitKeep (?p1 ! k) ?upd (c + 1)" using k by simp
  have pidsA: "map pid ?A = map pid ps"
    using k by (simp add: map_pid_update splitKeep_def)
  have atk: "resPages ?res ! k = ?B ! k" using k lenB by (simp add: pages nth_append)
  have Bk: "pid (?B ! k) = pid (?A ! k)" "records (?B ! k) = records (?A ! k)"
    "nextPageId (?B ! k) = nextPageId (?A ! k)"
    using relinkNext_nth [of k ?A "nextPageId ?tp" "c + 1"] k by simp_all
  have orig: "pid (resPages ?res ! k) = pid ?tp" "records (resPages ?res ! k) = take 3 ?upd"
    "nextPageId (resPages ?res ! k) = Some (c + 1)"
    using k half unfolding atk Bk Ak by (simp_all add: splitKeep_def)
  have new: "last (resPages ?res) = splitNew t ?tp ?upd (c + 1)" by (simp add: pages)
  have nxt: "prevPageId (resPages ?res ! j) = Some (c + 1)"
    if n: "nextPageId ?tp = Some n" and j: "findIndex (\<lambda>p. pid p = n) ps = Some j" for n j
  proof -
    from findIndex_cong_map [OF pidsA, of "\<lambda>i. i = n"] j
    have jA: "findIndex (\<lambda>p. pid p = n) ?A = Some j" by simp
    from findIndex_Some [OF j] have "j < length ps" by simp
    then have "resPages ?res ! j = ?B ! j" using lenB by (simp add: pages nth_append)
    with relinkNext_prev [OF jA, of "c + 1"] n show ?thesis by simp
  qed
  show ?thesis
  proof (intro exI [of _ ?res] conjI allI impI)
    show "insertIntoIndex ps t r cmp c ls = Some ?res" by (rule run)
    show "newPageCounter ?res = c + 1" by (rule cnt)
    show "length (resPages ?res) = Suc (length ps)" using lenB by (simp add: pages)
    show "length ?upd = 5" by (rule len)
    show "pid (resPages ?res ! k) = pid ?tp" by (rule orig)
    show "records (resPages ?res ! k) = take 3 ?upd" by (rule orig)
    show "nextPageId (resPages ?res ! k) = Some (c + 1)" by (rule orig)
    show "pid (last (resPages ?res)) = c + 1" by (simp add: new splitNew_def)
    show "indexType (last (resPages ?res)) = t" by (simp add: new splitNew_def)
    show "records (last (resPages ?res)) = drop 3 ?upd" using half by (simp add: new splitNew_def)
    show "prevPageId (last (resPages ?res)) = Some (pid ?tp)" by (simp add: new splitNew_def)
    show "nextPageId (last (resPages ?res)) = nextPageId ?tp" by (simp add: new splitNew_def)
    show "prevPageId (resPages ?res ! j) = Some (c + 1)"
      if "nextPageId ?tp = Some n" "findIndex (\<lambda>p. pid p = n) ps = Some j" for n j
      using that by (rule nxt)
  qed
qed

text \<open>
  The theorem at the state after four inserts and the record with id 5: page 1 keeps the
  ids 1, 2, 3 and the new page 3 holds 4, 5.
\<close>

theorem full_page_splits_witness:
  "\<exists>s res. fullState = Some s
     \<and> findTarget (chainHead (pages s) PRIMARY) (pages s) primaryCompare (newRecord 5 ''Eve'') = Some 1
     \<and> (1::int) \<noteq> - 1
     \<and> findIndex (\<lambda>p. pid p = 1) (pages s) = Some 0
     \<and> length (records (pages s ! 0)) = PAGE_CAPACITY
     \<and> \<not> (PRIMARY = PRIMARY \<and> (\<exists>x \<in> set (records (pages s ! 0)). rid x = rid (newRecord 5 ''Eve'')))
     \<and> insertIntoIndex (pages s) PRIMARY (newRecord 5 ''Eve'') primaryCompare 2 [] = Some res
     \<and> newPageCounter res = 3
     \<and> map rid (records (resPages res ! 0)) = [1, 2, 3]
     \<and> nextPageId (resPages res ! 0) = Some 3
     \<and> pid (last (resPages res)) = 3
     \<and> map rid (records (last (resPages res))) = [4, 5]
     \<and> prevPageId (last (resPages res)) = Some 1"
proof -
  define s where "s = the fullState"
  let ?r = "newRecord 5 ''Eve''"
  have a: "fullState = Some s" unfolding s_def by code_simp
  have h1: "findTarget (chainHead (pages s) PRIMARY) (pages s) primaryCompare ?r = Some 1"
    unfolding s_def by code_simp
  have h2: "(1::int) \<noteq> - 1" by simp
  have h3: "findIndex (\<lambda>p. pid p = 1) (pages s) = Some 0" unfolding s_def by code_simp
  have h4: "length (records (pages s ! 0)) = PAGE_CAPACITY" unfolding s_def by code_simp
  have h5: "\<not> (PRIMARY = PRIMARY \<and> (\<exists>x \<in> set (records (pages s ! 0)). rid x = rid ?r))"
    unfolding s_def by code_simp
  have e: "map rid (take 3 (sort_cmp primaryCompare (records (pages s ! 0) @ [?r]))) = [1, 2, 3]"
    "map rid (drop 3 (sort_cmp primaryCompare (records (pages s ! 0) @ [?r]))) = [4, 5]"
    "pid (pages s ! 0) = 1"
    unfolding s_def by code_simp+
  from full_page_splits [OF h1 h2 h3 h4 h5, of 2 "[]"] obtain res where
    r: "insertIntoIndex (pages s) PRIMARY ?r primaryCompare 2 [] = Some res"
      "newPageCounter res = 2 + 1"
      "records (resPages res ! 0) = take 3 (sort_cmp primaryCompare (records (pages s ! 0) @ [?r]))"
      "nextPageId (resPages res ! 0) = Some (2 + 1)"
      "pid (last (resPages res)) = 2 + 1"
      "records (last (resPages res)) = drop 3 (sort_cmp primaryCompare (records (pages s ! 0) @ [?r]))"
      "prevPageId (last (resPages res)) = Some (pid (pages s ! 0))"
    by (elim exE conjE)
  from r e have c: "newPageCounter res = 3" "map rid (records (resPages res ! 0)) = [1, 2, 3]"
    "nextPageId (resPages res ! 0) = Some 3" "pid (last (resPages res)) = 3"
    "map rid (records (last (resPages res))) = [4, 5]" "prevPageId (last (resPages res)) = Some 1"
    by simp_all
  from a h1 h2 h3 h4 h5 r(1) c show ?thesis by (intro exI conjI)
qed

text \<open>
  Claim C2 as stated fails: on the state after four inserts the primary page is full, and
  inserting a record with the id 2 into the primary index is refused as a duplicate: no
  page is split and no page id is allocated.
\<close>

theorem full_page_splits_counterexample:
  "\<exists>s res. fullState = Some s
     \<and> findTarget (chainHead (pages s) PRIMARY) (pages s) primaryCompare (newRecord 2 ''Bob'') = Some 1
     \<and> findIndex (\<lambda>p. pid p = 1) (pages s) = Some 0
     \<and> length (records (pages s ! 0)) = PAGE_CAPACITY
     \<and> insertIntoIndex (pages s) PRIMARY (newRecord 2 ''Bob'') primaryCompare 2 [] = Some res
     \<and> resPages res = pages s \<and> newPageCounter res = 2 \<and> length (resPages res) = 2
     \<and> map rid (records (resPages res ! 0)) = [1, 2, 3, 4]"
proof -
  define s where "s = the fullState"
  define res where
    "res = the (insertIntoIndex (pages s) PRIMARY (newRecord 2 ''Bob'') primaryCompare 2 [])"
  have a: "fullState = Some s" unfolding s_def by code_simp
  have b: "findTarget (chainHead (pages s) PRIMARY) (pages s) primaryCompare (newRecord 2 ''Bob'') = Some 1"
    unfolding s_def by code_simp
  have c: "findIndex (\<lambda>p. pid p = 1) (pages s) = Some 0" unfolding s_def by code_simp
  have d: "length (records (pages s ! 0)) = PAGE_CAPACITY" unfolding s_def by code_simp
  have e: "insertIntoIndex (pages s) PRIMARY (newRecord 2 ''Bob'') primaryCompare 2 [] = Some res"
    unfolding res_def s_def by code_simp
  have f: "resPages res = pages s" unfolding res_def s_def by code_simp
  have g: "newPageCounter res = 2" "length (resPages res) = 2"
    "map rid (records (resPages res ! 0)) = [1, 2, 3, 4]"
    unfolding res_def s_def by code_simp+
  from a b c d e f g show ?thesis by (intro exI conjI)
qed

section \<open>Pages by id\<close>

lemma lookup_SomeD: "lookup ps i = Some p \<Longrightarrow> p \<in> set ps \<and> pid p = i"
  unfolding lookup_def by (drule find_SomeD) simp

lemma lookup_None: "lookup ps i = None \<longleftrightarrow> i \<notin> pid ` set ps"
  unfolding lookup_def by (auto simp: find_None_iff)

lemma lookup_distinct:
  "distinct (map pid ps) \<Longrightarrow> p \<in> set ps \<Longrightarrow> lookup ps (pid p) = Some p"
proof (induction ps)
  case Nil
  then show ?case by simp
next
  case (Cons a ps)
  then show ?case by (auto simp: lookup_def image_iff)
qed

lemma lookup_nth:
  "distinct (map pid ps) \<Longrightarrow> k < length ps \<Longrightarrow> lookup ps (pid (ps ! k)) = Some (ps ! k)"
  by (rule lookup_distinct) simp_all

lemma lookup_update:
  assumes "distinct (map pid ps)" "k < length ps" "pid q = pid (ps ! k)"
  shows "lookup (ps[k := q]) i = (if i = pid q then Some q else lookup ps i)"
proof -
  have d: "distinct (map pid (ps[k := q]))" using assms by (simp add: map_pid_update)
  have q: "q \<in> set (ps[k := q])" using assms(2) by (simp add: set_update_memI)
  show ?thesis
  proof (cases "i = pid q")
    case True
    with lookup_distinct [OF d q] show ?thesis by simp
  next
    case False
    show ?thesis
    proof (cases "lookup ps i")
      case None
      then have "i \<notin> set (map pid ps)" by (simp add: lookup_None)
      then have "i \<notin> set (map pid (ps[k := q]))" using assms by (simp add: map_pid_update)
      then have "lookup (ps[k := q]) i = None" by (simp add: lookup_None)
      with None False show ?thesis by simp
    next
      case (Some p)
      then have p: "p \<in> set ps" "pid p = i" by (auto dest: lookup_SomeD)
      then obtain j where j: "j < length ps" "ps ! j = p" by (auto simp: in_set_conv_nth)
      with False p assms(3) have "j \<noteq> k" by auto
      with j have "p \<in> set (ps[k := q])"
        by (metis length_list_update nth_list_update_neq nth_mem)
      from lookup_distinct [OF d this] p Some False show ?thesis by simp
    qed
  qed
qed

lemma lookup_append:
  "lookup (ps @ [q]) i =
     (case lookup ps i of Some p \<Rightarrow> Some p | None \<Rightarrow> if pid q = i then Some q else None)"
  unfolding lookup_def by (induction ps) auto

lemma find_by_link: "find (\<lambda>p. Some (pid p) = Some n) ps = lookup ps n"
  by (simp add: lookup_def)

lemma findIndex_lookup:
  assumes "findIndex (\<lambda>p. pid p = i) ps = Some k"
  shows "k < length ps \<and> lookup ps i = Some (ps ! k)"
proof -
  from findIndex_Some [OF assms] have k: "k < length ps" "pid (ps ! k) = i"
    "\<forall>j < k. pid (ps ! j) \<noteq> i" by auto
  then have "find (\<lambda>p. pid p = i) ps = Some (ps ! k)"
    by (auto simp: find_Some_iff)
  with k show ?thesis by (simp add: lookup_def)
qed

lemma lookup_findIndex:
  assumes "lookup ps i = Some p"
  shows "\<exists>k. findIndex (\<lambda>p. pid p = i) ps = Some k \<and> k < length ps \<and> ps ! k = p"
proof (cases "findIndex (\<lambda>p. pid p = i) ps")
  case None
  with assms show ?thesis by (auto simp: findIndex_None dest: lookup_SomeD)
next
  case (Some k)
  with findIndex_lookup [OF Some] assms show ?thesis by simp
qed

section \<open>Linked segments\<close>

lemma seg_cong:
  "(\<And>i. i \<in> set is \<Longrightarrow> m' i = m i) \<Longrightarrow> seg m' t prv is nxt = seg m t prv is nxt"
  by (induction "is" arbitrary: prv) (auto split: option.splits)

lemma seg_append:
  "seg m t prv (xs @ ys) nxt \<longleftrightarrow>
     seg m t prv xs (case ys of [] \<Rightarrow> nxt | j # _ \<Rightarrow> Some j)
     \<and> seg m t (case xs of [] \<Rightarrow> prv | _ \<Rightarrow> Some (last xs)) ys nxt"
proof (induction xs arbitrary: prv)
  case Nil
  then show ?case by simp
next
  case (Cons x xs)
  show ?case
  proof (cases xs)
    case Nil
    then show ?thesis by (cases ys) (auto split: option.splits)
  next
    case (Cons x' xs')
    with Cons.IH [of "Some x"] show ?thesis by (auto split: option.splits)
  qed
qed

lemma seg_member:
  "seg m t prv is nxt \<Longrightarrow> i \<in> set is \<Longrightarrow> \<exists>p. m i = Some p \<and> indexType p = t"
  by (induction "is" arbitrary: prv) (auto split: option.splits)

lemma seg_tail_prev:
  "seg m t prv is nxt \<Longrightarrow> i \<in> set (tl is) \<Longrightarrow> \<exists>p. m i = Some p \<and> prevPageId p \<noteq> None"
proof (induction "is" arbitrary: prv)
  case Nil
  then show ?case by simp
next
  case (Cons a as)
  show ?case
  proof (cases as)
    case Nil
    with Cons.prems show ?thesis by simp
  next
    case (Cons b bs)
    from Cons.prems(1) have s: "seg m t (Some a) as nxt" by (auto split: option.splits)
    show ?thesis
    proof (cases "i = b")
      case True
      with s Cons show ?thesis by (auto split: option.splits)
    next
      case False
      with Cons.prems(2) Cons have "i \<in> set (tl as)" by simp
      from Cons.IH [OF s this] show ?thesis .
    qed
  qed
qed

section \<open>Locating the target page on a well-formed chain\<close>

lemma chainHead_chain:
  assumes d: "distinct (map pid ps)" and ch: "chainOf (lookup ps) t is"
  shows "\<exists>h. chainHead ps t = Some h \<and> lookup ps (hd is) = Some h"
proof -
  let ?m = "lookup ps"
  let ?ip = "filter (\<lambda>p. indexType p = t) ps"
  from ch obtain i0 rest where isq: "is = i0 # rest" unfolding chainOf_def by (cases "is") auto
  from ch have sg: "seg ?m t None is None"
    and all: "\<forall>i p. ?m i = Some p \<longrightarrow> indexType p = t \<longrightarrow> i \<in> set is"
    unfolding chainOf_def by auto
  from sg isq obtain h0 where h0: "?m i0 = Some h0" "indexType h0 = t" "prevPageId h0 = None"
    by (auto split: option.splits)
  then have "h0 \<in> set ?ip" by (auto dest: lookup_SomeD)
  with h0(3) have "find (\<lambda>p. prevPageId p = None) ?ip \<noteq> None"
    by (auto simp: find_None_iff)
  then obtain h where h: "find (\<lambda>p. prevPageId p = None) ?ip = Some h" by auto
  from find_SomeD [OF h] have hp: "prevPageId h = None" "h \<in> set ps" "indexType h = t" by auto
  from lookup_distinct [OF d hp(2)] have mh: "?m (pid h) = Some h" .
  with all hp(3) have "pid h \<in> set is" by blast
  have "pid h = i0"
  proof (rule ccontr)
    assume "pid h \<noteq> i0"
    with \<open>pid h \<in> set is\<close> isq have "pid h \<in> set (tl is)" by simp
    from seg_tail_prev [OF sg this] mh hp(1) show False by simp
  qed
  with mh h0(1) have "h = h0" by simp
  with h h0(1) isq show ?thesis by (simp add: chainHead_def)
qed

lemma findTarget_chain:
  assumes "seg (lookup ps) t prv (i # rest) None" and "lookup ps i = Some p"
  shows "\<exists>pre tgt post. i # rest = pre @ tgt # post
     \<and> findTarget (Some p) ps cmp r = Some tgt
     \<and> (\<forall>j \<in> set (tl (pre @ [tgt])). \<not> stopsBefore (lookup ps) cmp r j)
     \<and> (post \<noteq> [] \<longrightarrow> stopsBefore (lookup ps) cmp r (hd post))"
  using assms
proof (induction rest arbitrary: i p prv)
  case Nil
  then have "nextPageId p = None" by simp
  then have "findTarget (Some p) ps cmp r = Some (pid p)"
    by (subst findTarget.simps) simp
  moreover from Nil.prems(2) have "pid p = i" by (auto dest: lookup_SomeD)
  ultimately have "[i] = [] @ i # [] \<and> findTarget (Some p) ps cmp r = Some i
     \<and> (\<forall>j \<in> set (tl ([] @ [i])). \<not> stopsBefore (lookup ps) cmp r j)
     \<and> ([] \<noteq> [] \<longrightarrow> stopsBefore (lookup ps) cmp r (hd []))" by simp
  then show ?case by blast
next
  case (Cons j rest)
  let ?m = "lookup ps"
  from Cons.prems have nx: "nextPageId p = Some j" and sg: "seg ?m t (Some i) (j # rest) None"
    by simp_all
  from sg obtain q where q: "?m j = Some q" by (auto split: option.splits)
  have pidp: "pid p = i" using Cons.prems(2) by (auto dest: lookup_SomeD)
  have rq: "recsOf ?m j = records q" using q by (simp add: recsOf_def)
  show ?case
  proof (cases "stopsBefore ?m cmp r j")
    case True
    with rq have "records q \<noteq> [] \<and> cmp (hd (records q)) r > 0" by (simp add: stopsBefore_def)
    with nx q have "findTarget (Some p) ps cmp r = Some (pid p)"
      by (subst findTarget.simps) (simp add: lookup_def [symmetric])
    with pidp True have "i # j # rest = [] @ i # (j # rest)
       \<and> findTarget (Some p) ps cmp r = Some i
       \<and> (\<forall>x \<in> set (tl ([] @ [i])). \<not> stopsBefore ?m cmp r x)
       \<and> (j # rest \<noteq> [] \<longrightarrow> stopsBefore ?m cmp r (hd (j # rest)))" by simp
    then show ?thesis by blast
  next
    case False
    with rq have "(records q \<noteq> [] \<and> cmp (hd (records q)) r > 0) = False"
      by (simp add: stopsBefore_def)
    with nx q have step: "findTarget (Some p) ps cmp r = findTarget (Some q) ps cmp r"
      by (subst findTarget.simps) (auto simp: lookup_def [symmetric])
    from Cons.IH [OF sg q] obtain pre tgt post where
      ih: "j # rest = pre @ tgt # post" "findTarget (Some q) ps cmp r = Some tgt"
        "\<forall>x \<in> set (tl (pre @ [tgt])). \<not> stopsBefore ?m cmp r x"
        "post \<noteq> [] \<longrightarrow> stopsBefore ?m cmp r (hd post)"
      by blast
    from ih(1) have "hd (pre @ [tgt]) = j" by (cases pre) auto
    then have "set (pre @ [tgt]) = insert j (set (tl (pre @ [tgt])))"
      by (cases "pre @ [tgt]") auto
    with ih(3) False have "\<forall>x \<in> set (pre @ [tgt]). \<not> stopsBefore ?m cmp r x" by auto
    with ih step have "i # j # rest = (i # pre) @ tgt # post
       \<and> findTarget (Some p) ps cmp r = Some tgt
       \<and> (\<forall>x \<in> set (tl ((i # pre) @ [tgt])). \<not> stopsBefore ?m cmp r x)
       \<and> (post \<noteq> [] \<longrightarrow> stopsBefore ?m cmp r (hd post))" by simp
    then show ?thesis by blast
  qed
qed

section \<open>Chains under the updates of an insertion\<close>

lemma seg_update_same:
  assumes "m i = Some p" "indexType p' = indexType p" "prevPageId p' = prevPageId p"
    "nextPageId p' = nextPageId p"
  shows "seg (m(i \<mapsto> p')) u prv js nxt = seg m u prv js nxt"
  using assms by (induction js arbitrary: prv) (auto split: option.splits)

lemma chainOf_update_same:
  assumes "m i = Some p" "indexType p' = indexType p" "prevPageId p' = prevPageId p"
    "nextPageId p' = nextPageId p"
  shows "chainOf (m(i \<mapsto> p')) u js = chainOf m u js"
proof -
  have "(\<forall>j q. (m(i \<mapsto> p')) j = Some q \<longrightarrow> indexType q = u \<longrightarrow> j \<in> set js)
      = (\<forall>j q. m j = Some q \<longrightarrow> indexType q = u \<longrightarrow> j \<in> set js)"
    using assms(1,2) by (auto split: if_splits)
  then show ?thesis
    unfolding chainOf_def using seg_update_same [of m i p p', OF assms] by simp
qed

lemma chainOf_member:
  "chainOf m t is \<Longrightarrow> i \<in> set is \<Longrightarrow> \<exists>p. m i = Some p \<and> indexType p = t"
  unfolding chainOf_def using seg_member by blast

lemma chains_disjoint:
  assumes "chainOf m t is" "chainOf m u js" "u \<noteq> t"
  shows "set is \<inter> set js = {}"
proof -
  have False if "i \<in> set is" "i \<in> set js" for i
    using chainOf_member [OF assms(1) that(1)] chainOf_member [OF assms(2) that(2)] assms(3)
    by auto
  then show ?thesis by auto
qed

lemma chain_split:
  assumes ch: "chainOf m t (pre @ tgt # post)"
    and tp: "m tgt = Some tp"
    and fresh: "m new = None"
    and kp: "m' tgt = Some kp" "indexType kp = t" "prevPageId kp = prevPageId tp"
      "nextPageId kp = Some new"
    and np: "m' new = Some np" "indexType np = t" "prevPageId np = Some tgt"
      "nextPageId np = nextPageId tp"
    and nx: "\<And>j rest nq. post = j # rest \<Longrightarrow> m j = Some nq \<Longrightarrow>
        \<exists>nq'. m' j = Some nq' \<and> indexType nq' = indexType nq
          \<and> nextPageId nq' = nextPageId nq \<and> prevPageId nq' = Some new"
    and other: "\<And>i. i \<noteq> tgt \<Longrightarrow> i \<noteq> new \<Longrightarrow> post = [] \<or> i \<noteq> hd post \<Longrightarrow> m' i = m i"
  shows "chainOf m' t (pre @ tgt # new # post)"
proof -
  let ?P = "case pre of [] \<Rightarrow> None | _ \<Rightarrow> Some (last pre)"
  from ch have dist: "distinct (pre @ tgt # post)"
    and sg: "seg m t None (pre @ tgt # post) None"
    and all: "\<forall>i p. m i = Some p \<longrightarrow> indexType p = t \<longrightarrow> i \<in> set (pre @ tgt # post)"
    unfolding chainOf_def by auto
  have newnot: "new \<notin> set (pre @ tgt # post)"
  proof
    assume "new \<in> set (pre @ tgt # post)"
    from seg_member [OF sg this] fresh show False by simp
  qed
  from sg have s1: "seg m t None pre (Some tgt)" and s2: "seg m t ?P (tgt # post) None"
    by (simp_all add: seg_append)
  from s2 tp have tpf: "indexType tp = t" "prevPageId tp = ?P"
    "nextPageId tp = (case post of [] \<Rightarrow> None | j # _ \<Rightarrow> Some j)"
    and s3: "seg m t (Some tgt) post None"
    by simp_all
  have pre_same: "seg m' t None pre (Some tgt) = seg m t None pre (Some tgt)"
  proof (rule seg_cong)
    fix i assume "i \<in> set pre"
    with dist newnot have "i \<noteq> tgt" "i \<noteq> new" "post = [] \<or> i \<noteq> hd post"
      by (cases post; auto)+
    then show "m' i = m i" by (rule other)
  qed
  have post_ok: "seg m' t (Some new) post None"
  proof (cases post)
    case Nil
    then show ?thesis by simp
  next
    case (Cons j rest)
    with s3 obtain nq where nq: "m j = Some nq" "indexType nq = t"
      "nextPageId nq = (case rest of [] \<Rightarrow> None | j' # _ \<Rightarrow> Some j')"
      and s4: "seg m t (Some j) rest None"
      by (auto split: option.splits)
    from nx [OF Cons nq(1)] obtain nq' where nq': "m' j = Some nq'"
      "indexType nq' = indexType nq" "nextPageId nq' = nextPageId nq" "prevPageId nq' = Some new"
      by blast
    have "seg m' t (Some j) rest None = seg m t (Some j) rest None"
    proof (rule seg_cong)
      fix i assume "i \<in> set rest"
      with dist newnot Cons have "i \<noteq> tgt" "i \<noteq> new" "post = [] \<or> i \<noteq> hd post" by auto
      then show "m' i = m i" by (rule other)
    qed
    with s4 nq nq' Cons show ?thesis by simp
  qed
  have "seg m' t ?P (tgt # new # post) None"
    using kp np tpf post_ok by simp
  with pre_same s1 have sg': "seg m' t None (pre @ tgt # new # post) None"
    by (simp add: seg_append)
  have all': "\<forall>i p. m' i = Some p \<longrightarrow> indexType p = t \<longrightarrow> i \<in> set (pre @ tgt # new # post)"
  proof (intro allI impI)
    fix i p assume a: "m' i = Some p" "indexType p = t"
    show "i \<in> set (pre @ tgt # new # post)"
    proof (cases "i = tgt \<or> i = new \<or> (post \<noteq> [] \<and> i = hd post)")
      case True
      then show ?thesis by (cases post) auto
    next
      case False
      then have "m' i = m i" by (intro other) auto
      with a all show ?thesis by auto
    qed
  qed
  from dist newnot have "distinct (pre @ tgt # new # post)" by auto
  with sg' all' show ?thesis unfolding chainOf_def by simp
qed

lemma chain_split_other:
  assumes ch: "chainOf m t (pre @ tgt # post)"
    and oc: "chainOf m u js" "u \<noteq> t"
    and fresh: "m new = None"
    and kp: "m' tgt = Some kp" "indexType kp = t"
    and np: "m' new = Some np" "indexType np = t"
    and nx: "\<And>j rest nq. post = j # rest \<Longrightarrow> m j = Some nq \<Longrightarrow>
        \<exists>nq'. m' j = Some nq' \<and> indexType nq' = indexType nq
          \<and> nextPageId nq' = nextPageId nq \<and> prevPageId nq' = Some new"
    and other: "\<And>i. i \<noteq> tgt \<Longrightarrow> i \<noteq> new \<Longrightarrow> post = [] \<or> i \<noteq> hd post \<Longrightarrow> m' i = m i"
  shows "chainOf m' u js \<and> (\<forall>j \<in> set js. m' j = m j)"
proof -
  have dj: "set (pre @ tgt # post) \<inter> set js = {}"
    using chains_disjoint [OF ch oc] .
  have newnot: "new \<notin> set js"
  proof
    assume "new \<in> set js"
    from chainOf_member [OF oc(1) this] fresh show False by simp
  qed
  have same: "m' j = m j" if "j \<in> set js" for j
  proof (rule other)
    from that dj show "j \<noteq> tgt" by auto
    from that newnot show "j \<noteq> new" by auto
    from that dj show "post = [] \<or> j \<noteq> hd post" by (cases post) auto
  qed
  from oc(1) have "seg m u None js None" "js \<noteq> []" "distinct js"
    and all: "\<forall>i p. m i = Some p \<longrightarrow> indexType p = u \<longrightarrow> i \<in> set js"
    unfolding chainOf_def by auto
  moreover have "seg m' u None js None = seg m u None js None"
    by (rule seg_cong) (rule same)
  moreover have "\<forall>i p. m' i = Some p \<longrightarrow> indexType p = u \<longrightarrow> i \<in> set js"
  proof (intro allI impI)
    fix i p assume a: "m' i = Some p" "indexType p = u"
    have "i \<noteq> tgt" using a kp oc(2) by auto
    moreover have "i \<noteq> new" using a np oc(2) by auto
    moreover have "post = [] \<or> i \<noteq> hd post"
    proof (cases post)
      case Nil
      then show ?thesis by simp
    next
      case (Cons j rest)
      then have "j \<in> set (pre @ tgt # post)" by simp
      from chainOf_member [OF ch this] obtain nq where nq: "m j = Some nq" "indexType nq = t"
        by blast
      from nx [OF Cons nq(1)] nq(2) obtain nq' where "m' j = Some nq'" "indexType nq' = t"
        by auto
      with a oc(2) Cons show ?thesis by auto
    qed
    ultimately have "m' i = m i" by (rule other)
    with a all show "i \<in> set js" by auto
  qed
  ultimately show ?thesis unfolding chainOf_def using same by simp
qed

section \<open>The page array under the updates of an insertion\<close>

lemma lookup_None_map: "lookup ps i = None \<longleftrightarrow> i \<notin> set (map pid ps)"
  by (simp add: lookup_None)

lemma baseInv_update:
  assumes "baseInv ps c" "k < length ps" "pid q = pid (ps ! k)"
  shows "baseInv (ps[k := q]) c"
proof -
  have "set (ps[k := q]) \<subseteq> insert q (set ps)" by (rule set_update_subset_insert)
  moreover have "0 < pid q \<and> pid q \<le> c" using assms by (simp add: baseInv_def)
  ultimately show ?thesis using assms by (auto simp: baseInv_def map_pid_update)
qed

lemma baseInv_lookup_bound: "baseInv ps c \<Longrightarrow> lookup ps i = Some p \<Longrightarrow> 0 < i \<and> i \<le> c"
  by (auto simp: baseInv_def dest: lookup_SomeD)

lemma baseInv_fresh: "baseInv ps c \<Longrightarrow> lookup ps (c + 1) = None"
  by (cases "lookup ps (c + 1)") (auto dest: baseInv_lookup_bound)

lemma baseInv_mono: "baseInv ps c \<Longrightarrow> c \<le> c' \<Longrightarrow> baseInv ps c'"
  by (auto simp: baseInv_def)

lemma lookup_update_map:
  assumes "baseInv ps c" "k < length ps" "pid q = pid (ps ! k)"
  shows "lookup (ps[k := q]) = (lookup ps)(pid q \<mapsto> q)"
  using assms by (auto simp: baseInv_def lookup_update fun_eq_iff)

lemma relinkNext_lookup:
  assumes base: "baseInv ps c"
  shows "baseInv (relinkNext ps nxt n) c
     \<and> (\<forall>j nq. nxt = Some j \<longrightarrow> lookup ps j = Some nq
           \<longrightarrow> lookup (relinkNext ps nxt n) j = Some (nq\<lparr>prevPageId := Some n\<rparr>))
     \<and> (\<forall>i. nxt \<noteq> Some i \<longrightarrow> lookup (relinkNext ps nxt n) i = lookup ps i)"
proof (cases nxt)
  case None
  with base show ?thesis by (simp add: relinkNext_def)
next
  case (Some j)
  show ?thesis
  proof (cases "findIndex (\<lambda>p. pid p = j) ps")
    case None
    then have "lookup ps j = None" by (auto simp: findIndex_None lookup_None)
    with None Some base show ?thesis by (simp add: relinkNext_def)
  next
    case (Some jx)
    from findIndex_lookup [OF Some] have jx: "jx < length ps" "lookup ps j = Some (ps ! jx)" by auto
    then have pj: "pid (ps ! jx) = j" by (auto dest: lookup_SomeD)
    let ?q = "(ps ! jx)\<lparr>prevPageId := Some n\<rparr>"
    have r: "relinkNext ps nxt n = ps[jx := ?q]" using Some \<open>nxt = Some j\<close>
      by (simp add: relinkNext_def)
    have pq: "pid ?q = pid (ps ! jx)" by simp
    from lookup_update_map [OF base jx(1) pq] baseInv_update [OF base jx(1) pq] jx(2) pj
    show ?thesis unfolding r using \<open>nxt = Some j\<close> by auto
  qed
qed

lemma split_lookup:
  assumes base: "baseInv ps c" and k: "k < length ps" and tgt: "pid (ps ! k) = tgt"
    and kp: "pid kp = tgt" and np: "pid np = c + 1" and nt: "nxt \<noteq> Some tgt"
  defines "R \<equiv> relinkNext (ps[k := kp]) nxt (c + 1) @ [np]"
  shows "baseInv R (c + 1)"
    and "lookup R tgt = Some kp"
    and "lookup R (c + 1) = Some np"
    and "\<And>j nq. nxt = Some j \<Longrightarrow> lookup ps j = Some nq
           \<Longrightarrow> lookup R j = Some (nq\<lparr>prevPageId := Some (c + 1)\<rparr>)"
    and "\<And>i. i \<noteq> tgt \<Longrightarrow> i \<noteq> c + 1 \<Longrightarrow> nxt \<noteq> Some i \<Longrightarrow> lookup R i = lookup ps i"
proof -
  let ?A = "ps[k := kp]"
  let ?B = "relinkNext ?A nxt (c + 1)"
  have pk: "pid kp = pid (ps ! k)" using kp tgt by simp
  have baseA: "baseInv ?A c" using base k pk by (rule baseInv_update)
  have lA: "lookup ?A = (lookup ps)(tgt \<mapsto> kp)"
    using lookup_update_map [OF base k pk] kp by simp
  note B = relinkNext_lookup [OF baseA, of nxt "c + 1"]
  from B have baseB: "baseInv ?B c" by blast
  have freshB: "lookup ?B (c + 1) = None" using baseB by (rule baseInv_fresh)
  have lR: "lookup R i = (if i = c + 1 then Some np else lookup ?B i)" for i
  proof (cases "lookup ?B i")
    case None
    then show ?thesis by (simp add: R_def lookup_append np)
  next
    case (Some p)
    with freshB have "i \<noteq> c + 1" by auto
    with Some show ?thesis by (simp add: R_def lookup_append)
  qed
  have tc: "tgt \<noteq> c + 1"
    using baseInv_lookup_bound [OF base, of tgt "ps ! k"] lookup_nth [of ps k] base k tgt
    by (auto simp: baseInv_def)
  show "baseInv R (c + 1)"
  proof -
    have notin: "c + 1 \<notin> set (map pid ?B)" using freshB unfolding lookup_None_map .
    from k have "ps ! k \<in> set ps" by simp
    with base have cpos: "0 < c" by (fastforce simp: baseInv_def)
    from baseB have dB: "distinct (map pid ?B)" and bB: "\<forall>p \<in> set ?B. 0 < pid p \<and> pid p \<le> c"
      by (simp_all add: baseInv_def)
    from dB notin np have "distinct (map pid R)" by (simp add: R_def)
    moreover from bB np cpos have "\<forall>p \<in> set R. 0 < pid p \<and> pid p \<le> c + 1"
      by (fastforce simp: R_def)
    ultimately show ?thesis by (simp add: baseInv_def)
  qed
  show "lookup R tgt = Some kp" using B nt tc lA by (simp add: lR)
  show "lookup R (c + 1) = Some np" by (simp add: lR)
  show "lookup R j = Some (nq\<lparr>prevPageId := Some (c + 1)\<rparr>)"
    if "nxt = Some j" "lookup ps j = Some nq" for j nq
  proof -
    from that nt have jt: "j \<noteq> tgt" by auto
    with that(2) lA have "lookup ?A j = Some nq" by simp
    with B that(1) have "lookup ?B j = Some (nq\<lparr>prevPageId := Some (c + 1)\<rparr>)" by blast
    moreover from baseInv_lookup_bound [OF base that(2)] have "j \<noteq> c + 1" by auto
    ultimately show ?thesis by (simp add: lR)
  qed
  show "lookup R i = lookup ps i" if "i \<noteq> tgt" "i \<noteq> c + 1" "nxt \<noteq> Some i" for i
    using that B lA by (simp add: lR)
qed

section \<open>One insertion into one index\<close>

lemma located:
  assumes base: "baseInv ps c" and ch: "chainOf (lookup ps) t is"
  obtains pre tgt post tp k where
    "is = pre @ tgt # post"
    "findTarget (chainHead ps t) ps cmp r = Some tgt"
    "tgt \<noteq> - 1"
    "findIndex (\<lambda>p. pid p = tgt) ps = Some k" "k < length ps" "ps ! k = tp"
    "lookup ps tgt = Some tp" "pid tp = tgt"
    "\<forall>j \<in> set (tl (pre @ [tgt])). \<not> stopsBefore (lookup ps) cmp r j"
    "post \<noteq> [] \<longrightarrow> stopsBefore (lookup ps) cmp r (hd post)"
proof -
  from base have d: "distinct (map pid ps)" by (simp add: baseInv_def)
  from chainHead_chain [OF d ch] obtain h where
    h: "chainHead ps t = Some h" "lookup ps (hd is) = Some h" by blast
  from ch obtain i0 rest where isq: "is = i0 # rest" unfolding chainOf_def by (cases "is") auto
  from ch isq have sg: "seg (lookup ps) t None (i0 # rest) None" by (simp add: chainOf_def)
  from h(2) isq have h0: "lookup ps i0 = Some h" by simp
  from findTarget_chain [OF sg h0, of cmp r] obtain pre tgt post where
    f: "i0 # rest = pre @ tgt # post" "findTarget (Some h) ps cmp r = Some tgt"
      "\<forall>j \<in> set (tl (pre @ [tgt])). \<not> stopsBefore (lookup ps) cmp r j"
      "post \<noteq> [] \<longrightarrow> stopsBefore (lookup ps) cmp r (hd post)"
    by blast
  from f(1) isq have "tgt \<in> set is" by simp
  from chainOf_member [OF ch this] obtain tp where tp: "lookup ps tgt = Some tp" by blast
  from baseInv_lookup_bound [OF base tp] have pos: "tgt \<noteq> - 1" by simp
  from lookup_findIndex [OF tp] obtain k where
    k: "findIndex (\<lambda>p. pid p = tgt) ps = Some k" "k < length ps" "ps ! k = tp" by blast
  from tp have "pid tp = tgt" by (auto dest: lookup_SomeD)
  with that [of pre tgt post k tp] f isq h(1) tp pos k show ?thesis by simp
qed

lemma insertIntoIndex_unfold:
  assumes "findTarget (chainHead ps t) ps cmp r = Some tgt" "tgt \<noteq> - 1"
    "findIndex (\<lambda>p. pid p = tgt) ps = Some k"
  shows "insertIntoIndex ps t r cmp c ls =
     Some (if t = PRIMARY \<and> (\<exists>x \<in> set (records (ps ! k)). rid x = rid r)
           then \<lparr>resPages = ps, newPageCounter = c, resLogs = duplicateLog ls r\<rparr>
           else if PAGE_CAPACITY \<le> length (records (ps ! k))
           then splitPage (ps[k := withRecord (ps ! k) cmp r]) t k (ps ! k)
                  (sort_cmp cmp (records (ps ! k) @ [r])) c ls
           else \<lparr>resPages = ps[k := withRecord (ps ! k) cmp r], newPageCounter = c,
                  resLogs = ls\<rparr>)"
  using assms
  by (simp add: insertIntoIndex_def Let_def withRecord_def duplicateLog_def less_Suc_eq_le
           del: bex_simps)

lemma plain_update:
  assumes base: "baseInv ps c" and k: "k < length ps" and tgt: "pid (ps ! k) = tgt"
  shows "baseInv (ps[k := withRecord (ps ! k) cmp r]) c"
    and "lookup (ps[k := withRecord (ps ! k) cmp r]) = (lookup ps)(tgt \<mapsto> withRecord (ps ! k) cmp r)"
    and "chainOf (lookup (ps[k := withRecord (ps ! k) cmp r])) u js = chainOf (lookup ps) u js"
proof -
  let ?q = "withRecord (ps ! k) cmp r"
  have pq: "pid ?q = pid (ps ! k)" by (simp add: withRecord_def)
  show "baseInv (ps[k := ?q]) c" using base k pq by (rule baseInv_update)
  show l: "lookup (ps[k := ?q]) = (lookup ps)(tgt \<mapsto> ?q)"
    using lookup_update_map [OF base k pq] pq tgt by simp
  from base have "distinct (map pid ps)" by (simp add: baseInv_def)
  from lookup_nth [OF this k] tgt have "lookup ps tgt = Some (ps ! k)" by simp
  then show "chainOf (lookup (ps[k := ?q])) u js = chainOf (lookup ps) u js"
    unfolding l by (rule chainOf_update_same) (simp_all add: withRecord_def)
qed

lemma chainOf_target_links:
  assumes "chainOf m t (pre @ tgt # post)" "m tgt = Some tp"
  shows "indexType tp = t"
    and "nextPageId tp = (case post of [] \<Rightarrow> None | j # _ \<Rightarrow> Some j)"
    and "nextPageId tp \<noteq> Some tgt"
proof -
  from assms(1) have sg: "seg m t None (pre @ tgt # post) None"
    and d: "distinct (pre @ tgt # post)" by (simp_all add: chainOf_def)
  from sg assms(2) show "indexType tp = t"
    and n: "nextPageId tp = (case post of [] \<Rightarrow> None | j # _ \<Rightarrow> Some j)"
    by (simp_all add: seg_append)
  from d n show "nextPageId tp \<noteq> Some tgt" by (cases post) auto
qed

lemma split_update:
  fixes upd :: "RecordData list" and ls :: "LogEntry list"
  assumes base: "baseInv ps c"
    and ch: "chainOf (lookup ps) t (pre @ tgt # post)"
    and oc: "chainOf (lookup ps) u js" "u \<noteq> t"
    and k: "k < length ps" and tgt: "pid (ps ! k) = tgt"
    and tp: "pid tp = tgt" "nextPageId tp = nextPageId (ps ! k)"
  defines "R \<equiv> resPages (splitPage ps t k tp upd c ls)"
  shows "baseInv R (c + 1)"
    and "chainOf (lookup R) t (pre @ tgt # (c + 1) # post)"
    and "chainOf (lookup R) u js"
    and "\<forall>j \<in> set js. lookup R j = lookup ps j"
    and "recsOf (lookup R) tgt = take ((length upd + 1) div 2) upd"
    and "recsOf (lookup R) (c + 1) = drop ((length upd + 1) div 2) upd"
    and "\<And>i. i \<noteq> tgt \<Longrightarrow> i \<noteq> c + 1 \<Longrightarrow> recsOf (lookup R) i = recsOf (lookup ps) i"
proof -
  let ?m = "lookup ps"
  let ?kp = "splitKeep (ps ! k) upd (c + 1)"
  let ?np = "splitNew t tp upd (c + 1)"
  let ?nxt = "nextPageId tp"
  from base have "distinct (map pid ps)" by (simp add: baseInv_def)
  from lookup_nth [OF this k] tgt have mt: "?m tgt = Some (ps ! k)" by simp
  note tl = chainOf_target_links [OF ch mt]
  have R: "R = relinkNext (ps[k := ?kp]) ?nxt (c + 1) @ [?np]"
    by (simp add: R_def splitPage_eq)
  have pk: "pid ?kp = tgt" using tgt by (simp add: splitKeep_def)
  have pn: "pid ?np = c + 1" by (simp add: splitNew_def)
  have nt: "?nxt \<noteq> Some tgt" using tl(3) tp(2) by simp
  note sl = split_lookup [OF base k tgt pk pn nt, folded R]
  show "baseInv R (c + 1)" by (rule sl(1))
  have fresh: "?m (c + 1) = None" using base by (rule baseInv_fresh)
  have nx: "\<exists>nq'. lookup R j = Some nq' \<and> indexType nq' = indexType nq
          \<and> nextPageId nq' = nextPageId nq \<and> prevPageId nq' = Some (c + 1)"
    if "post = j # rest" "?m j = Some nq" for j rest nq
  proof -
    from that(1) tl(2) tp(2) have "?nxt = Some j" by simp
    from sl(4) [OF this that(2)] show ?thesis by simp
  qed
  have other: "lookup R i = ?m i" if "i \<noteq> tgt" "i \<noteq> c + 1" "post = [] \<or> i \<noteq> hd post" for i
  proof -
    from that(3) tl(2) tp(2) have "?nxt \<noteq> Some i" by (cases post) auto
    with that(1,2) show ?thesis by (rule sl(5))
  qed
  show "chainOf (lookup R) t (pre @ tgt # (c + 1) # post)"
  proof (rule chain_split [OF ch mt fresh sl(2) _ _ _ sl(3)])
    show "indexType ?kp = t" using tl(1) by (simp add: splitKeep_def)
    show "prevPageId ?kp = prevPageId (ps ! k)" by (simp add: splitKeep_def)
    show "nextPageId ?kp = Some (c + 1)" by (simp add: splitKeep_def)
    show "indexType ?np = t" by (simp add: splitNew_def)
    show "prevPageId ?np = Some tgt" using tp(1) by (simp add: splitNew_def)
    show "nextPageId ?np = nextPageId (ps ! k)" using tp(2) by (simp add: splitNew_def)
  qed (fact nx, fact other)
  have "chainOf (lookup R) u js \<and> (\<forall>j \<in> set js. lookup R j = ?m j)"
  proof (rule chain_split_other [OF ch oc fresh sl(2) _ sl(3)])
    show "indexType ?kp = t" using tl(1) by (simp add: splitKeep_def)
    show "indexType ?np = t" by (simp add: splitNew_def)
  qed (fact nx, fact other)
  then show "chainOf (lookup R) u js" and "\<forall>j \<in> set js. lookup R j = ?m j" by simp_all
  show "recsOf (lookup R) tgt = take ((length upd + 1) div 2) upd"
    using sl(2) by (simp add: recsOf_def splitKeep_def)
  show "recsOf (lookup R) (c + 1) = drop ((length upd + 1) div 2) upd"
    using sl(3) by (simp add: recsOf_def splitNew_def)
  show "recsOf (lookup R) i = recsOf ?m i" if "i \<noteq> tgt" "i \<noteq> c + 1" for i
  proof (cases "?nxt = Some i")
    case True
    show ?thesis
    proof (cases "?m i")
      case None
      with True that sl(5) [of i] show ?thesis
      proof -
        have "post \<noteq> []" using True tl(2) tp(2) by (cases post) auto
        then obtain j rest where p: "post = j # rest" by (cases post) auto
        with True tl(2) tp(2) have "i = j" by simp
        with p have "i \<in> set (pre @ tgt # post)" by simp
        from chainOf_member [OF ch this] None show ?thesis by simp
      qed
    next
      case (Some nq)
      from sl(4) [OF True Some] Some show ?thesis by (simp add: recsOf_def)
    qed
  next
    case False
    with that sl(5) [of i] show ?thesis by (simp add: recsOf_def)
  qed
qed

lemma chainRecs_cong:
  "(\<And>i. i \<in> set is \<Longrightarrow> recsOf m' i = recsOf m i) \<Longrightarrow> chainRecs m' is = chainRecs m is"
  unfolding chainRecs_def by (induction "is") auto

lemma chainRecs_append [simp]: "chainRecs m (xs @ ys) = chainRecs m xs @ chainRecs m ys"
  by (simp add: chainRecs_def)

lemma chainRecs_Cons [simp]: "chainRecs m (i # is) = recsOf m i @ chainRecs m is"
  by (simp add: chainRecs_def)

lemma split_halves:
  assumes "4 < length (upd :: 'a list)"
  shows "take ((length upd + 1) div 2) upd \<noteq> []" and "drop ((length upd + 1) div 2) upd \<noteq> []"
  using assms by auto

lemma withRecord_fields [simp]:
  "pid (withRecord p cmp r) = pid p"
  "indexType (withRecord p cmp r) = indexType p"
  "nextPageId (withRecord p cmp r) = nextPageId p"
  "prevPageId (withRecord p cmp r) = prevPageId p"
  "records (withRecord p cmp r) = sort_cmp cmp (records p @ [r])"
  by (simp_all add: withRecord_def)

lemma plain_inserted:
  fixes cmp :: "RecordData \<Rightarrow> RecordData \<Rightarrow> int" and r :: RecordData and ls :: "LogEntry list"
  assumes base: "baseInv ps c"
    and ch: "chainOf (lookup ps) t (pre @ tgt # post)"
    and oc: "chainOf (lookup ps) u js" "u \<noteq> t"
    and k: "k < length ps" and tp: "ps ! k = tp" "pid tp = tgt"
  defines "res \<equiv> \<lparr>resPages = ps[k := withRecord tp cmp r], newPageCounter = c, resLogs = ls\<rparr>"
  shows "insertedInto ps c t u js pre tgt post (sort_cmp cmp (records tp @ [r])) res
           (pre @ tgt # post)"
proof -
  let ?m = "lookup ps"
  let ?upd = "sort_cmp cmp (records tp @ [r])"
  let ?R = "ps[k := withRecord tp cmp r]"
  from tp have tgt: "pid (ps ! k) = tgt" by simp
  note pu = plain_update [OF base k tgt, of cmp r, unfolded tp(1)]
  have rt: "recsOf (lookup ?R) tgt = ?upd" by (simp add: pu(2) recsOf_def)
  have ro: "recsOf (lookup ?R) i = recsOf ?m i" if "i \<noteq> tgt" for i
    using that by (simp add: pu(2) recsOf_def)
  from ch have d: "distinct (pre @ tgt # post)" by (simp add: chainOf_def)
  have dj: "set (pre @ tgt # post) \<inter> set js = {}" using chains_disjoint [OF ch oc] .
  have fr: "\<forall>j \<in> set js. lookup ?R j = ?m j"
  proof
    fix j assume "j \<in> set js"
    with dj have "j \<noteq> tgt" by auto
    then show "lookup ?R j = ?m j" by (simp add: pu(2))
  qed
  have recs: "chainRecs (lookup ?R) (pre @ tgt # post) = chainRecs ?m pre @ ?upd @ chainRecs ?m post"
  proof -
    have "chainRecs (lookup ?R) pre = chainRecs ?m pre"
      using d by (intro chainRecs_cong ro) auto
    moreover have "chainRecs (lookup ?R) post = chainRecs ?m post"
      using d by (intro chainRecs_cong ro) auto
    ultimately show ?thesis by (simp add: rt)
  qed
  have ne: "\<forall>i \<in> set (tl (pre @ tgt # post)). recsOf (lookup ?R) i \<noteq> []"
    if a: "\<forall>i \<in> set (tl (pre @ tgt # post)). recsOf ?m i \<noteq> []"
  proof
    fix i assume i: "i \<in> set (tl (pre @ tgt # post))"
    show "recsOf (lookup ?R) i \<noteq> []"
    proof (cases "i = tgt")
      case True
      have "length ?upd = Suc (length (records tp))" by simp
      then have "?upd \<noteq> []" by (metis length_0_conv nat.distinct(1))
      with True rt show ?thesis by simp
    next
      case False
      with a i ro show ?thesis by simp
    qed
  qed
  show ?thesis
    unfolding insertedInto_def res_def
    using pu(1) pu(3) [of t "pre @ tgt # post"] pu(3) [of u js] ch oc(1) fr recs ne base k
    by (simp add: map_pid_update tp)
qed

lemma split_inserted:
  fixes cmp :: "RecordData \<Rightarrow> RecordData \<Rightarrow> int" and r :: RecordData and ls :: "LogEntry list"
  assumes base: "baseInv ps c"
    and ch: "chainOf (lookup ps) t (pre @ tgt # post)"
    and oc: "chainOf (lookup ps) u js" "u \<noteq> t"
    and k: "k < length ps" and tp: "ps ! k = tp" "pid tp = tgt"
    and len: "PAGE_CAPACITY \<le> length (records tp)"
  defines "upd \<equiv> sort_cmp cmp (records tp @ [r])"
  defines "res \<equiv> splitPage (ps[k := withRecord tp cmp r]) t k tp upd c ls"
  shows "insertedInto ps c t u js pre tgt post upd res (pre @ tgt # (c + 1) # post)"
proof -
  let ?m = "lookup ps"
  let ?ps1 = "ps[k := withRecord tp cmp r]"
  let ?R = "resPages res"
  let ?h = "(length upd + 1) div 2"
  from tp have tgt: "pid (ps ! k) = tgt" by simp
  note pu = plain_update [OF base k tgt, of cmp r, unfolded tp(1)]
  have ch1: "chainOf (lookup ?ps1) t (pre @ tgt # post)" using ch by (simp add: pu(3))
  have oc1: "chainOf (lookup ?ps1) u js" using oc(1) by (simp add: pu(3))
  have k1: "k < length ?ps1" using k by simp
  have t1: "pid (?ps1 ! k) = tgt" using k tp by simp
  have n1: "nextPageId tp = nextPageId (?ps1 ! k)" using k by simp
  note su = split_update [OF pu(1) ch1 oc1 oc(2) k1 t1 tp(2) n1, where upd = upd and ls = ls, folded res_def]
  from ch have d: "distinct (pre @ tgt # post)" by (simp add: chainOf_def)
  have dj: "set (pre @ tgt # post) \<inter> set js = {}" using chains_disjoint [OF ch oc] .
  have fresh: "c + 1 \<notin> set (pre @ tgt # post)"
  proof
    assume "c + 1 \<in> set (pre @ tgt # post)"
    from chainOf_member [OF ch this] baseInv_fresh [OF base] show False by simp
  qed
  have r1: "recsOf (lookup ?ps1) i = recsOf ?m i" if "i \<noteq> tgt" for i
    using that by (simp add: pu(2) recsOf_def)
  have ro: "recsOf (lookup ?R) i = recsOf ?m i" if "i \<noteq> tgt" "i \<noteq> c + 1" for i
    using su(7) [OF that] r1 [OF that(1)] by simp
  have cnt: "newPageCounter res = c + 1" by (simp add: res_def splitPage_eq)
  have pids: "map pid ?R = map pid ps @ [c + 1]"
    using k tp by (simp add: res_def splitPage_eq map_pid_update splitKeep_def splitNew_def)
  have fr: "\<forall>j \<in> set js. lookup ?R j = ?m j"
  proof
    fix j assume j: "j \<in> set js"
    with dj have "j \<noteq> tgt" by auto
    with su(4) j show "lookup ?R j = ?m j" by (simp add: pu(2))
  qed
  have recs: "chainRecs (lookup ?R) (pre @ tgt # (c + 1) # post)
                = chainRecs ?m pre @ upd @ chainRecs ?m post"
  proof -
    have "chainRecs (lookup ?R) pre = chainRecs ?m pre"
      using d fresh by (intro chainRecs_cong ro) auto
    moreover have "chainRecs (lookup ?R) post = chainRecs ?m post"
      using d fresh by (intro chainRecs_cong ro) auto
    ultimately show ?thesis by (simp add: su(5,6))
  qed
  have l4: "4 < length upd" using len by (simp add: upd_def PAGE_CAPACITY_def)
  have ne: "\<forall>i \<in> set (tl (pre @ tgt # (c + 1) # post)). recsOf (lookup ?R) i \<noteq> []"
    if a: "\<forall>i \<in> set (tl (pre @ tgt # post)). recsOf ?m i \<noteq> []"
  proof
    fix i assume i: "i \<in> set (tl (pre @ tgt # (c + 1) # post))"
    consider "i = tgt" | "i = c + 1" | "i \<noteq> tgt" "i \<noteq> c + 1" by blast
    then show "recsOf (lookup ?R) i \<noteq> []"
    proof cases
      case 1
      with su(5) split_halves(1) [OF l4] show ?thesis by simp
    next
      case 2
      with su(6) split_halves(2) [OF l4] show ?thesis by simp
    next
      case 3
      with i have "i \<in> set (tl (pre @ tgt # post))" by (cases pre) auto
      with a ro [OF 3] show ?thesis by simp
    qed
  qed
  show ?thesis
    unfolding insertedInto_def
    using su(1,2,3) cnt pids fr recs ne by simp
qed

lemma insert_outcome:
  assumes base: "baseInv ps c" and ch: "chainOf (lookup ps) t is"
    and oc: "chainOf (lookup ps) u js" "u \<noteq> t"
  obtains pre tgt post tp where
    "is = pre @ tgt # post" "lookup ps tgt = Some tp"
    "\<forall>j \<in> set (tl (pre @ [tgt])). \<not> stopsBefore (lookup ps) cmp r j"
    "post \<noteq> [] \<longrightarrow> stopsBefore (lookup ps) cmp r (hd post)"
    "if t = PRIMARY \<and> (\<exists>x \<in> set (records tp). rid x = rid r)
     then insertIntoIndex ps t r cmp c ls
            = Some \<lparr>resPages = ps, newPageCounter = c, resLogs = duplicateLog ls r\<rparr>
     else \<exists>res is'. insertIntoIndex ps t r cmp c ls = Some res
            \<and> insertedInto ps c t u js pre tgt post (sort_cmp cmp (records tp @ [r])) res is'"
proof -
  obtain pre tgt post tp k where
    l: "is = pre @ tgt # post"
      "findTarget (chainHead ps t) ps cmp r = Some tgt"
      "tgt \<noteq> - 1"
      "findIndex (\<lambda>p. pid p = tgt) ps = Some k" "k < length ps" "ps ! k = tp"
      "lookup ps tgt = Some tp" "pid tp = tgt"
      "\<forall>j \<in> set (tl (pre @ [tgt])). \<not> stopsBefore (lookup ps) cmp r j"
      "post \<noteq> [] \<longrightarrow> stopsBefore (lookup ps) cmp r (hd post)"
    by (rule located [OF base ch, of cmp r])
  note u = insertIntoIndex_unfold [OF l(2,3,4), where c = c and ls = ls, unfolded l(6)]
  from ch l(1) have ch': "chainOf (lookup ps) t (pre @ tgt # post)" by simp
  let ?dup = "t = PRIMARY \<and> (\<exists>x \<in> set (records tp). rid x = rid r)"
  let ?upd = "sort_cmp cmp (records tp @ [r])"
  have "if ?dup
     then insertIntoIndex ps t r cmp c ls
            = Some \<lparr>resPages = ps, newPageCounter = c, resLogs = duplicateLog ls r\<rparr>
     else \<exists>res is'. insertIntoIndex ps t r cmp c ls = Some res
            \<and> insertedInto ps c t u js pre tgt post ?upd res is'"
  proof (cases ?dup)
    case True
    with u show ?thesis by (simp only: if_P if_True if_False)
  next
    case False
    show ?thesis
    proof (cases "PAGE_CAPACITY \<le> length (records tp)")
      case True
      let ?res = "splitPage (ps[k := withRecord tp cmp r]) t k tp ?upd c ls"
      from u False True have "insertIntoIndex ps t r cmp c ls = Some ?res"
        by (simp only: if_P if_not_P if_False if_True)
      moreover have "insertedInto ps c t u js pre tgt post ?upd ?res (pre @ tgt # (c + 1) # post)"
        using base ch' oc l(5,6,8) True by (rule split_inserted)
      ultimately have "\<exists>res is'. insertIntoIndex ps t r cmp c ls = Some res
            \<and> insertedInto ps c t u js pre tgt post ?upd res is'"
        by (intro exI conjI)
      then show ?thesis using False by (simp only: if_not_P if_False if_True)
    next
      case nf: False
      let ?res = "\<lparr>resPages = ps[k := withRecord tp cmp r], newPageCounter = c, resLogs = ls\<rparr>"
      from u False nf have "insertIntoIndex ps t r cmp c ls = Some ?res"
        by (simp only: if_P if_not_P if_False if_True)
      moreover have "insertedInto ps c t u js pre tgt post ?upd ?res (pre @ tgt # post)"
        using base ch' oc l(5,6,8) by (rule plain_inserted)
      ultimately have "\<exists>res is'. insertIntoIndex ps t r cmp c ls = Some res
            \<and> insertedInto ps c t u js pre tgt post ?upd res is'"
        by (intro exI conjI)
      then show ?thesis using False by (simp only: if_not_P if_False if_True)
    qed
  qed
  with l(1,7,9,10) show ?thesis by (rule that)
qed

section \<open>Sorting a page\<close>

lemma insort_cmp_mset: "mset (insort_cmp c x xs) = add_mset x (mset xs)"
  by (induction xs) auto

lemma foldl_insort_mset:
  "mset (foldl (\<lambda>acc x. insort_cmp c x acc) acc xs) = mset acc + mset xs"
  by (induction xs arbitrary: acc) (auto simp: insort_cmp_mset)

lemma sort_cmp_mset: "mset (sort_cmp c xs) = mset xs"
  by (simp add: sort_cmp_def foldl_insort_mset)

lemma sort_cmp_set: "set (sort_cmp c xs) = set xs"
  using sort_cmp_mset [of c xs] by (metis set_mset_mset)

lemma insort_cmp_last: "\<forall>y \<in> set xs. \<not> c x y < 0 \<Longrightarrow> insort_cmp c x xs = xs @ [x]"
  by (induction xs) auto

lemma foldl_insort_sorted:
  "sorted_wrt (<) (map rid (acc @ xs))
     \<Longrightarrow> foldl (\<lambda>acc x. insort_cmp primaryCompare x acc) acc xs = acc @ xs"
proof (induction xs arbitrary: acc)
  case Nil
  then show ?case by simp
next
  case (Cons x xs)
  from Cons.prems have "\<forall>y \<in> set acc. rid y < rid x"
    by (auto simp: sorted_wrt_append)
  then have "insort_cmp primaryCompare x acc = acc @ [x]"
    by (intro insort_cmp_last) (auto simp: primaryCompare_def)
  moreover from Cons.prems have "sorted_wrt (<) (map rid ((acc @ [x]) @ xs))" by simp
  ultimately show ?case using Cons.IH [of "acc @ [x]"] by simp
qed

lemma insort_primary_sorted:
  "sorted_wrt (<) (map rid xs) \<Longrightarrow> rid x \<notin> rid ` set xs
     \<Longrightarrow> sorted_wrt (<) (map rid (insort_cmp primaryCompare x xs))"
proof (induction xs)
  case Nil
  then show ?case by simp
next
  case (Cons y ys)
  show ?case
  proof (cases "primaryCompare x y < 0")
    case True
    with Cons.prems show ?thesis by (auto simp: primaryCompare_def)
  next
    case False
    with Cons.prems have lt: "rid y < rid x" by (auto simp: primaryCompare_def)
    from Cons.prems have "sorted_wrt (<) (map rid (insort_cmp primaryCompare x ys))"
      by (intro Cons.IH) auto
    moreover have "set (insort_cmp primaryCompare x ys) = insert x (set ys)"
      using insort_cmp_mset [of primaryCompare x ys] by (metis set_mset_mset set_mset_add_mset_insert)
    ultimately show ?thesis using False lt Cons.prems by auto
  qed
qed

lemma sort_primary_sorted:
  assumes "sorted_wrt (<) (map rid xs)" "rid x \<notin> rid ` set xs"
  shows "sorted_wrt (<) (map rid (sort_cmp primaryCompare (xs @ [x])))"
proof -
  have "foldl (\<lambda>acc x. insort_cmp primaryCompare x acc) [] xs = xs"
    using foldl_insort_sorted [of "[]" xs] assms(1) by simp
  then have "sort_cmp primaryCompare (xs @ [x]) = insort_cmp primaryCompare x xs"
    by (simp add: sort_cmp_def)
  with insort_primary_sorted [OF assms] show ?thesis by simp
qed

section \<open>The order of the primary chain\<close>

lemma primary_target:
  assumes srt: "sorted_wrt (<) (map rid (chainRecs m (pre @ tgt # post)))"
    and ne: "\<forall>i \<in> set (tl (pre @ tgt # post)). recsOf m i \<noteq> []"
    and tc1: "\<forall>j \<in> set (tl (pre @ [tgt])). \<not> stopsBefore m primaryCompare r j"
    and tc2: "post \<noteq> [] \<longrightarrow> stopsBefore m primaryCompare r (hd post)"
  shows "\<forall>x \<in> set (chainRecs m pre). rid x < rid r"
    and "\<forall>x \<in> set (chainRecs m post). rid r < rid x"
proof -
  let ?R = "recsOf m tgt"
  from srt have s: "sorted_wrt (<) (map rid (chainRecs m pre) @ map rid ?R @ map rid (chainRecs m post))"
    by simp
  show "\<forall>x \<in> set (chainRecs m pre). rid x < rid r"
  proof (cases pre)
    case Nil
    then show ?thesis by (simp add: chainRecs_def)
  next
    case (Cons a pre')
    then have "tgt \<in> set (tl (pre @ [tgt]))" "tgt \<in> set (tl (pre @ tgt # post))" by simp_all
    with ne tc1 have R: "?R \<noteq> []" and "\<not> stopsBefore m primaryCompare r tgt" by auto
    then have le: "rid (hd ?R) \<le> rid r" by (simp add: stopsBefore_def primaryCompare_def)
    from R have "hd ?R \<in> set ?R" by simp
    with s have "\<forall>x \<in> set (chainRecs m pre). rid x < rid (hd ?R)"
      by (auto simp: sorted_wrt_append)
    with le show ?thesis by auto
  qed
  show "\<forall>x \<in> set (chainRecs m post). rid r < rid x"
  proof (cases post)
    case Nil
    then show ?thesis by (simp add: chainRecs_def)
  next
    case (Cons j rest)
    with tc2 have "stopsBefore m primaryCompare r j" by simp
    then obtain h t' where h: "recsOf m j = h # t'" "rid r < rid h"
      by (cases "recsOf m j") (auto simp: stopsBefore_def primaryCompare_def)
    from s have "sorted_wrt (<) (map rid (chainRecs m post))" by (simp add: sorted_wrt_append)
    moreover have e: "chainRecs m post = h # (t' @ chainRecs m rest)" using Cons h(1) by simp
    ultimately have "\<forall>x \<in> set (t' @ chainRecs m rest). rid h < rid x"
      by auto
    then have "\<forall>x \<in> set (chainRecs m post). rid h \<le> rid x"
      unfolding e by (auto simp: ball_Un less_imp_le)
    with h(2) show ?thesis by auto
  qed
qed

lemma primary_duplicate_on_target:
  assumes srt: "sorted_wrt (<) (map rid (chainRecs m (pre @ tgt # post)))"
    and ne: "\<forall>i \<in> set (tl (pre @ tgt # post)). recsOf m i \<noteq> []"
    and tc1: "\<forall>j \<in> set (tl (pre @ [tgt])). \<not> stopsBefore m primaryCompare r j"
    and tc2: "post \<noteq> [] \<longrightarrow> stopsBefore m primaryCompare r (hd post)"
    and tp: "m tgt = Some tp"
    and dup: "rid r \<in> rid ` set (chainRecs m (pre @ tgt # post))"
  shows "\<exists>x \<in> set (records tp). rid x = rid r"
proof -
  note pt = primary_target [OF srt ne tc1 tc2]
  from tp have "recsOf m tgt = records tp" by (simp add: recsOf_def)
  with dup pt show ?thesis by fastforce
qed

lemma primary_insert_sorted:
  assumes srt: "sorted_wrt (<) (map rid (chainRecs m (pre @ tgt # post)))"
    and ne: "\<forall>i \<in> set (tl (pre @ tgt # post)). recsOf m i \<noteq> []"
    and tc1: "\<forall>j \<in> set (tl (pre @ [tgt])). \<not> stopsBefore m primaryCompare r j"
    and tc2: "post \<noteq> [] \<longrightarrow> stopsBefore m primaryCompare r (hd post)"
    and tp: "m tgt = Some tp"
    and nodup: "\<not> (\<exists>x \<in> set (records tp). rid x = rid r)"
  shows "sorted_wrt (<) (map rid (chainRecs m pre @ sort_cmp primaryCompare (records tp @ [r])
           @ chainRecs m post))"
proof -
  note pt = primary_target [OF srt ne tc1 tc2]
  let ?U = "sort_cmp primaryCompare (records tp @ [r])"
  from tp have R: "recsOf m tgt = records tp" by (simp add: recsOf_def)
  from srt R have s: "sorted_wrt (<) (map rid (chainRecs m pre) @ map rid (records tp)
                        @ map rid (chainRecs m post))" by simp
  then have s3: "sorted_wrt (<) (map rid (chainRecs m pre))" "sorted_wrt (<) (map rid (records tp))"
    "sorted_wrt (<) (map rid (chainRecs m post))"
    and x1: "\<forall>a \<in> set (chainRecs m pre). \<forall>b \<in> set (records tp). rid a < rid b"
    and x2: "\<forall>a \<in> set (chainRecs m pre). \<forall>b \<in> set (chainRecs m post). rid a < rid b"
    and x3: "\<forall>a \<in> set (records tp). \<forall>b \<in> set (chainRecs m post). rid a < rid b"
    by (auto simp: sorted_wrt_append)
  from nodup have "rid r \<notin> rid ` set (records tp)" by auto
  with s3(2) have sU: "sorted_wrt (<) (map rid ?U)" by (rule sort_primary_sorted)
  have setU: "set ?U = insert r (set (records tp))" by (simp add: sort_cmp_set)
  have "sorted_wrt (<) (map rid (chainRecs m pre) @ map rid ?U @ map rid (chainRecs m post))"
    using s3(1,3) sU x1 x2 x3 pt setU by (auto simp: sorted_wrt_append)
  then show ?thesis by simp
qed

section \<open>Clearing the display flags\<close>

lemma cleanPage_fields [simp]:
  "pid (cleanPage p) = pid p"
  "indexType (cleanPage p) = indexType p"
  "nextPageId (cleanPage p) = nextPageId p"
  "prevPageId (cleanPage p) = prevPageId p"
  "records (cleanPage p) = map cleanRecord (records p)"
  by (simp_all add: cleanPage_def)

lemma cleanRecord_fields [simp]:
  "rid (cleanRecord r) = rid r" "rvalue (cleanRecord r) = rvalue r"
  by (simp_all add: cleanRecord_def)

lemma lookup_clean: "lookup (map cleanPage ps) i = map_option cleanPage (lookup ps i)"
  unfolding lookup_def by (induction ps) auto

lemma baseInv_clean: "baseInv (map cleanPage ps) c = baseInv ps c"
  by (simp add: baseInv_def comp_def)

lemma seg_clean:
  "seg (lookup (map cleanPage ps)) t prv is nxt = seg (lookup ps) t prv is nxt"
  by (induction "is" arbitrary: prv) (auto simp: lookup_clean split: option.splits)

lemma chainOf_clean: "chainOf (lookup (map cleanPage ps)) t is = chainOf (lookup ps) t is"
  unfolding chainOf_def by (auto simp: seg_clean lookup_clean)

lemma recsOf_clean:
  "recsOf (lookup (map cleanPage ps)) i = map cleanRecord (recsOf (lookup ps) i)"
  by (simp add: recsOf_def lookup_clean split: option.splits)

lemma chainRecs_clean:
  "chainRecs (lookup (map cleanPage ps)) is = map cleanRecord (chainRecs (lookup ps) is)"
  by (induction "is") (simp_all add: chainRecs_def recsOf_clean)

section \<open>The invariant of the engine state\<close>

lemma primaryOrdered_cong:
  assumes "\<And>i. i \<in> set is \<Longrightarrow> m' i = m i"
  shows "primaryOrdered m' is = primaryOrdered m is"
proof -
  have r: "recsOf m' i = recsOf m i" if "i \<in> set is" for i
    using assms [OF that] by (simp add: recsOf_def)
  then have "chainRecs m' is = chainRecs m is" by (rule chainRecs_cong)
  moreover have "(\<forall>i \<in> set (tl is). recsOf m' i \<noteq> []) = (\<forall>i \<in> set (tl is). recsOf m i \<noteq> [])"
    using r by (metis list.set_sel(2) tl_Nil)
  ultimately show ?thesis by (simp add: primaryOrdered_def)
qed

lemma primaryOrdered_clean:
  "primaryOrdered (lookup (map cleanPage ps)) is = primaryOrdered (lookup ps) is"
  by (simp add: primaryOrdered_def chainRecs_clean recsOf_clean comp_def)

lemma primary_step:
  assumes base: "baseInv ps c"
    and ch: "chainOf (lookup ps) PRIMARY is"
    and ord: "primaryOrdered (lookup ps) is"
    and oc: "chainOf (lookup ps) SECONDARY js"
  shows "\<exists>res is'. insertIntoIndex ps PRIMARY r primaryCompare c ls = Some res
     \<and> baseInv (resPages res) (newPageCounter res)
     \<and> (newPageCounter res = c \<or> newPageCounter res = c + 1)
     \<and> map pid (resPages res) = map pid ps @ (if newPageCounter res = c then [] else [c + 1])
     \<and> chainOf (lookup (resPages res)) PRIMARY is'
     \<and> primaryOrdered (lookup (resPages res)) is'
     \<and> chainOf (lookup (resPages res)) SECONDARY js
     \<and> (\<forall>j \<in> set js. lookup (resPages res) j = lookup ps j)
     \<and> (if rid r \<in> rid ` set (chainRecs (lookup ps) is)
         then res = \<lparr>resPages = ps, newPageCounter = c, resLogs = duplicateLog ls r\<rparr> \<and> is' = is
         else mset (chainRecs (lookup (resPages res)) is')
                = add_mset r (mset (chainRecs (lookup ps) is)))"
proof -
  let ?m = "lookup ps"
  have ne: "SECONDARY \<noteq> PRIMARY" by simp
  obtain pre tgt post tp where
    o: "is = pre @ tgt # post" "?m tgt = Some tp"
      "\<forall>j \<in> set (tl (pre @ [tgt])). \<not> stopsBefore ?m primaryCompare r j"
      "post \<noteq> [] \<longrightarrow> stopsBefore ?m primaryCompare r (hd post)"
      "if PRIMARY = PRIMARY \<and> (\<exists>x \<in> set (records tp). rid x = rid r)
       then insertIntoIndex ps PRIMARY r primaryCompare c ls
              = Some \<lparr>resPages = ps, newPageCounter = c, resLogs = duplicateLog ls r\<rparr>
       else \<exists>res is'. insertIntoIndex ps PRIMARY r primaryCompare c ls = Some res
              \<and> insertedInto ps c PRIMARY SECONDARY js pre tgt post
                   (sort_cmp primaryCompare (records tp @ [r])) res is'"
    by (rule insert_outcome [OF base ch oc ne, where cmp = primaryCompare and r = r and ls = ls])
  from ord o(1) have srt: "sorted_wrt (<) (map rid (chainRecs ?m (pre @ tgt # post)))"
    and nem: "\<forall>i \<in> set (tl (pre @ tgt # post)). recsOf ?m i \<noteq> []"
    by (simp_all add: primaryOrdered_def)
  have rt: "recsOf ?m tgt = records tp" using o(2) by (simp add: recsOf_def)
  show ?thesis
  proof (cases "\<exists>x \<in> set (records tp). rid x = rid r")
    case True
    let ?res = "\<lparr>resPages = ps, newPageCounter = c, resLogs = duplicateLog ls r\<rparr>"
    from True o(5) have run: "insertIntoIndex ps PRIMARY r primaryCompare c ls = Some ?res"
      by (simp only: simp_thms if_True)
    from True obtain x where "x \<in> set (records tp)" "rid x = rid r" by blast
    with rt o(1) have "x \<in> set (chainRecs ?m is)" by simp
    with \<open>rid x = rid r\<close> have "rid r \<in> rid ` set (chainRecs ?m is)" by (metis imageI)
    with run base ch ord oc show ?thesis
      by (intro exI [of _ ?res] exI [of _ "is"]) simp
  next
    case False
    with o(5) obtain res is' where
      run: "insertIntoIndex ps PRIMARY r primaryCompare c ls = Some res"
      and ins: "insertedInto ps c PRIMARY SECONDARY js pre tgt post
                   (sort_cmp primaryCompare (records tp @ [r])) res is'"
      by (simp only: simp_thms if_False) blast
    let ?m' = "lookup (resPages res)"
    let ?U = "sort_cmp primaryCompare (records tp @ [r])"
    from ins have i: "baseInv (resPages res) (newPageCounter res)"
      "newPageCounter res = c \<or> newPageCounter res = c + 1"
      "map pid (resPages res) = map pid ps @ (if newPageCounter res = c then [] else [c + 1])"
      "chainOf ?m' PRIMARY is'" "chainOf ?m' SECONDARY js"
      "\<forall>j \<in> set js. ?m' j = ?m j"
      "chainRecs ?m' is' = chainRecs ?m pre @ ?U @ chainRecs ?m post"
      "(\<forall>i \<in> set (tl (pre @ tgt # post)). recsOf ?m i \<noteq> [])
          \<longrightarrow> (\<forall>i \<in> set (tl is'). recsOf ?m' i \<noteq> [])"
      unfolding insertedInto_def by blast+
    have "sorted_wrt (<) (map rid (chainRecs ?m pre @ ?U @ chainRecs ?m post))"
      using srt nem o(3,4,2) False by (rule primary_insert_sorted)
    with i(7,8) nem have ord': "primaryOrdered ?m' is'" by (simp add: primaryOrdered_def)
    have nd: "rid r \<notin> rid ` set (chainRecs ?m is)"
    proof
      assume "rid r \<in> rid ` set (chainRecs ?m is)"
      with o(1) have "rid r \<in> rid ` set (chainRecs ?m (pre @ tgt # post))" by simp
      from primary_duplicate_on_target [OF srt nem o(3,4,2) this] False show False by simp
    qed
    have "mset (chainRecs ?m' is') = add_mset r (mset (chainRecs ?m is))"
      using i(7) o(1) rt by (simp add: sort_cmp_mset)
    with nd run i(1-6) ord' show ?thesis
      by (intro exI [of _ res] exI [of _ is']) simp
  qed
qed

lemma secondary_step:
  assumes base: "baseInv ps c"
    and ch: "chainOf (lookup ps) SECONDARY js"
    and oc: "chainOf (lookup ps) PRIMARY is"
  shows "\<exists>res js'. insertIntoIndex ps SECONDARY r cmp c ls = Some res
     \<and> baseInv (resPages res) (newPageCounter res)
     \<and> (newPageCounter res = c \<or> newPageCounter res = c + 1)
     \<and> map pid (resPages res) = map pid ps @ (if newPageCounter res = c then [] else [c + 1])
     \<and> chainOf (lookup (resPages res)) SECONDARY js'
     \<and> chainOf (lookup (resPages res)) PRIMARY is
     \<and> (\<forall>j \<in> set is. lookup (resPages res) j = lookup ps j)
     \<and> mset (chainRecs (lookup (resPages res)) js') = add_mset r (mset (chainRecs (lookup ps) js))"
proof -
  let ?m = "lookup ps"
  have ne: "PRIMARY \<noteq> SECONDARY" by simp
  obtain pre tgt post tp where
    o: "js = pre @ tgt # post" "?m tgt = Some tp"
      and "\<forall>j \<in> set (tl (pre @ [tgt])). \<not> stopsBefore ?m cmp r j"
      and "post \<noteq> [] \<longrightarrow> stopsBefore ?m cmp r (hd post)"
      and o3: "if SECONDARY = PRIMARY \<and> (\<exists>x \<in> set (records tp). rid x = rid r)
       then insertIntoIndex ps SECONDARY r cmp c ls
              = Some \<lparr>resPages = ps, newPageCounter = c, resLogs = duplicateLog ls r\<rparr>
       else \<exists>res is'. insertIntoIndex ps SECONDARY r cmp c ls = Some res
              \<and> insertedInto ps c SECONDARY PRIMARY is pre tgt post
                   (sort_cmp cmp (records tp @ [r])) res is'"
    by (rule insert_outcome [OF base ch oc ne, where cmp = cmp and r = r and ls = ls])
  from o3 obtain res js' where
    run: "insertIntoIndex ps SECONDARY r cmp c ls = Some res"
    and ins: "insertedInto ps c SECONDARY PRIMARY is pre tgt post
                 (sort_cmp cmp (records tp @ [r])) res js'"
    by (simp only: IndexType.distinct simp_thms if_False) blast
  let ?m' = "lookup (resPages res)"
  from ins have i: "baseInv (resPages res) (newPageCounter res)"
    "newPageCounter res = c \<or> newPageCounter res = c + 1"
    "map pid (resPages res) = map pid ps @ (if newPageCounter res = c then [] else [c + 1])"
    "chainOf ?m' SECONDARY js'" "chainOf ?m' PRIMARY is"
    "\<forall>j \<in> set is. ?m' j = ?m j"
    "chainRecs ?m' js' = chainRecs ?m pre @ sort_cmp cmp (records tp @ [r]) @ chainRecs ?m post"
    unfolding insertedInto_def by blast+
  have rt: "recsOf ?m tgt = records tp" using o(2) by (simp add: recsOf_def)
  have "mset (chainRecs ?m' js') = add_mset r (mset (chainRecs ?m js))"
    using i(7) o(1) rt by (simp add: sort_cmp_mset)
  with run i(1-6) show ?thesis
    by (intro exI [of _ res] exI [of _ js']) simp
qed

lemma insertRecord_effect:
  assumes base: "baseInv (pages s) (pageCounter s)"
    and chP: "chainOf (lookup (pages s)) PRIMARY is"
    and ord: "primaryOrdered (lookup (pages s)) is"
    and chS: "chainOf (lookup (pages s)) SECONDARY js"
  shows "\<exists>s' is' js'. insertRecord lc s i v = Some s'
     \<and> baseInv (pages s') (pageCounter s')
     \<and> chainOf (lookup (pages s')) PRIMARY is'
     \<and> primaryOrdered (lookup (pages s')) is'
     \<and> chainOf (lookup (pages s')) SECONDARY js'
     \<and> pageCounter s \<le> pageCounter s'
     \<and> (\<exists>new. map pid (pages s') = map pid (pages s) @ new
            \<and> (\<forall>n \<in> set new. pageCounter s < n \<and> n \<le> pageCounter s'))
     \<and> mset (chainRecs (lookup (pages s')) js')
           = add_mset (newRecord i v) (mset (map cleanRecord (chainRecs (lookup (pages s)) js)))
     \<and> (if i \<in> rid ` set (chainRecs (lookup (pages s)) is)
         then is' = is
            \<and> (\<forall>j \<in> set is. lookup (pages s') j = map_option cleanPage (lookup (pages s) j))
            \<and> logs s' = committedLog (duplicateLog (logs s) (newRecord i v)) i v
         else mset (chainRecs (lookup (pages s')) is')
                = add_mset (newRecord i v) (mset (map cleanRecord (chainRecs (lookup (pages s)) is))))"
proof -
  let ?ps0 = "map cleanPage (pages s)"
  let ?m0 = "lookup ?ps0"
  let ?r = "newRecord i v"
  let ?c = "pageCounter s"
  have b0: "baseInv ?ps0 ?c" using base by (simp add: baseInv_clean)
  have p0: "chainOf ?m0 PRIMARY is" using chP by (simp add: chainOf_clean)
  have o0: "primaryOrdered ?m0 is" using ord by (simp add: primaryOrdered_clean)
  have s0: "chainOf ?m0 SECONDARY js" using chS by (simp add: chainOf_clean)
  from primary_step [OF b0 p0 o0 s0, of ?r "logs s"] obtain res1 is1 where
    r1: "insertIntoIndex ?ps0 PRIMARY ?r primaryCompare ?c (logs s) = Some res1"
    and b1: "baseInv (resPages res1) (newPageCounter res1)"
    and c1: "newPageCounter res1 = ?c \<or> newPageCounter res1 = ?c + 1"
    and i1: "map pid (resPages res1) = map pid ?ps0 @ (if newPageCounter res1 = ?c then [] else [?c + 1])"
    and p1: "chainOf (lookup (resPages res1)) PRIMARY is1"
    and o1: "primaryOrdered (lookup (resPages res1)) is1"
    and s1: "chainOf (lookup (resPages res1)) SECONDARY js"
    and f1: "\<forall>j \<in> set js. lookup (resPages res1) j = ?m0 j"
    and d1: "if rid ?r \<in> rid ` set (chainRecs ?m0 is)
         then res1 = \<lparr>resPages = ?ps0, newPageCounter = ?c, resLogs = duplicateLog (logs s) ?r\<rparr>
              \<and> is1 = is
         else mset (chainRecs (lookup (resPages res1)) is1) = add_mset ?r (mset (chainRecs ?m0 is))"
    by (elim exE conjE)
  let ?c1 = "newPageCounter res1"
  from secondary_step [OF b1 s1 p1, of ?r "secondaryCompare lc" "resLogs res1"]
  obtain res2 js' where
    r2: "insertIntoIndex (resPages res1) SECONDARY ?r (secondaryCompare lc) ?c1 (resLogs res1) = Some res2"
    and b2: "baseInv (resPages res2) (newPageCounter res2)"
    and c2: "newPageCounter res2 = ?c1 \<or> newPageCounter res2 = ?c1 + 1"
    and i2: "map pid (resPages res2) = map pid (resPages res1) @ (if newPageCounter res2 = ?c1 then [] else [?c1 + 1])"
    and s2: "chainOf (lookup (resPages res2)) SECONDARY js'"
    and p2: "chainOf (lookup (resPages res2)) PRIMARY is1"
    and f2: "\<forall>j \<in> set is1. lookup (resPages res2) j = lookup (resPages res1) j"
    and m2: "mset (chainRecs (lookup (resPages res2)) js')
              = add_mset ?r (mset (chainRecs (lookup (resPages res1)) js))"
    by (elim exE conjE)
  let ?s' = "\<lparr>pages = resPages res2, logs = committedLog (resLogs res1) i v,
              pageCounter = newPageCounter res2\<rparr>"
  let ?m2 = "lookup (resPages res2)"
  have run: "insertRecord lc s i v = Some ?s'"
    using r1 r2 by (simp add: insertRecord_def Let_def committedLog_def)
  have o2: "primaryOrdered ?m2 is1"
    using o1 f2 primaryOrdered_cong [of is1 ?m2 "lookup (resPages res1)"] by simp
  have le: "?c \<le> newPageCounter res2" using c1 c2 by auto
  have new: "\<exists>new. map pid (resPages res2) = map pid (pages s) @ new
            \<and> (\<forall>n \<in> set new. ?c < n \<and> n \<le> newPageCounter res2)"
  proof -
    let ?n1 = "if ?c1 = ?c then [] else [?c + 1]"
    let ?n2 = "if newPageCounter res2 = ?c1 then [] else [?c1 + 1]"
    have "map pid (resPages res2) = map pid (pages s) @ (?n1 @ ?n2)"
      using i1 i2 by (simp add: comp_def)
    moreover have "\<forall>n \<in> set (?n1 @ ?n2). ?c < n \<and> n \<le> newPageCounter res2"
      using c1 c2 by auto
    ultimately show ?thesis by blast
  qed
  have js_recs: "chainRecs (lookup (resPages res1)) js = map cleanRecord (chainRecs (lookup (pages s)) js)"
  proof -
    have "chainRecs (lookup (resPages res1)) js = chainRecs ?m0 js"
      using f1 by (intro chainRecs_cong) (simp add: recsOf_def)
    then show ?thesis by (simp add: chainRecs_clean)
  qed
  have sec: "mset (chainRecs ?m2 js') = add_mset ?r (mset (map cleanRecord (chainRecs (lookup (pages s)) js)))"
    using m2 js_recs by simp
  have rr: "rid ?r = i" by (simp add: newRecord_def)
  have dupiff: "(rid ?r \<in> rid ` set (chainRecs ?m0 is)) = (i \<in> rid ` set (chainRecs (lookup (pages s)) is))"
    by (simp add: rr chainRecs_clean image_image)
  have is1_recs: "chainRecs ?m2 is1 = chainRecs (lookup (resPages res1)) is1"
    using f2 by (intro chainRecs_cong) (simp add: recsOf_def)
  have last: "if i \<in> rid ` set (chainRecs (lookup (pages s)) is)
         then is1 = is
            \<and> (\<forall>j \<in> set is. ?m2 j = map_option cleanPage (lookup (pages s) j))
            \<and> logs ?s' = committedLog (duplicateLog (logs s) ?r) i v
         else mset (chainRecs ?m2 is1)
                = add_mset ?r (mset (map cleanRecord (chainRecs (lookup (pages s)) is)))"
  proof (cases "i \<in> rid ` set (chainRecs (lookup (pages s)) is)")
    case True
    with d1 dupiff have e: "res1 = \<lparr>resPages = ?ps0, newPageCounter = ?c,
        resLogs = duplicateLog (logs s) ?r\<rparr>" "is1 = is"
      by (simp_all only: if_True simp_thms)
    have "\<forall>j \<in> set is. ?m2 j = map_option cleanPage (lookup (pages s) j)"
      using f2 e by (simp add: lookup_clean)
    with e True show ?thesis by simp
  next
    case False
    with d1 dupiff have "mset (chainRecs (lookup (resPages res1)) is1)
        = add_mset ?r (mset (chainRecs ?m0 is))"
      by (simp only: if_False simp_thms)
    with is1_recs False show ?thesis by (simp add: chainRecs_clean)
  qed
  show ?thesis
    by (rule exI [of _ ?s'], rule exI [of _ is1], rule exI [of _ js'])
       (use run b2 p2 o2 s2 le new sec last in \<open>simp split: if_splits\<close>)
qed

lemma insertRecord_preserves:
  assumes "stateInv s"
  shows "\<exists>s'. insertRecord lc s i v = Some s' \<and> stateInv s'
     \<and> pageCounter s \<le> pageCounter s'
     \<and> (\<exists>new. map pid (pages s') = map pid (pages s) @ new
            \<and> (\<forall>n \<in> set new. pageCounter s < n \<and> n \<le> pageCounter s'))"
proof -
  from assms obtain "is" js where a: "baseInv (pages s) (pageCounter s)"
    "chainOf (lookup (pages s)) PRIMARY is" "primaryOrdered (lookup (pages s)) is"
    "chainOf (lookup (pages s)) SECONDARY js"
    unfolding stateInv_def by blast
  from insertRecord_effect [OF a, of lc i v] obtain s' is' js' new where
    "insertRecord lc s i v = Some s'" "baseInv (pages s') (pageCounter s')"
    "chainOf (lookup (pages s')) PRIMARY is'" "primaryOrdered (lookup (pages s')) is'"
    "chainOf (lookup (pages s')) SECONDARY js'" "pageCounter s \<le> pageCounter s'"
    "map pid (pages s') = map pid (pages s) @ new"
    "\<forall>n \<in> set new. pageCounter s < n \<and> n \<le> pageCounter s'"
    by (elim exE conjE)
  then show ?thesis unfolding stateInv_def by blast
qed

lemma stateInv_initial: "stateInv initializeEngine"
proof -
  let ?ps = "pages initializeEngine"
  have "baseInv ?ps (pageCounter initializeEngine)"
    by (simp add: initializeEngine_def createPage_def baseInv_def)
  moreover have "chainOf (lookup ?ps) PRIMARY [1]"
    by (auto simp: initializeEngine_def createPage_def chainOf_def lookup_def split: if_splits)
  moreover have "primaryOrdered (lookup ?ps) [1]"
    by (simp add: initializeEngine_def createPage_def primaryOrdered_def chainRecs_def recsOf_def
          lookup_def)
  moreover have "chainOf (lookup ?ps) SECONDARY [2]"
    by (auto simp: initializeEngine_def createPage_def chainOf_def lookup_def split: if_splits)
  ultimately show ?thesis unfolding stateInv_def by blast
qed

section \<open>Reachable states\<close>

lemma insertAll_inv:
  "stateInv s \<Longrightarrow> \<exists>s'. insertAll lc s ops = Some s' \<and> stateInv s'"
proof (induction ops arbitrary: s)
  case Nil
  then show ?case by simp
next
  case (Cons x ops)
  obtain i v where x: "x = (i, v)" by (cases x)
  from insertRecord_preserves [OF Cons.prems, of lc i v] obtain s1 where
    s1: "insertRecord lc s i v = Some s1" "stateInv s1" by blast
  from Cons.IH [OF s1(2)] s1(1) x show ?case by simp
qed

lemma runOps_inv:
  "stateInv s \<Longrightarrow> \<exists>s'. runOps lc s ops = Some s' \<and> stateInv s'"
proof (induction ops arbitrary: s)
  case Nil
  then show ?case by simp
next
  case (Cons x ops)
  show ?case
  proof (cases x)
    case (Insert i v)
    from insertRecord_preserves [OF Cons.prems, of lc i v] obtain s1 where
      s1: "insertRecord lc s i v = Some s1" "stateInv s1" by blast
    from Cons.IH [OF s1(2)] s1(1) Insert show ?thesis by simp
  next
    case Reset
    have "stateInv resetEngine" by (simp add: resetEngine_def stateInv_initial)
    from Cons.IH [OF this] Reset show ?thesis by simp
  qed
qed

section \<open>Links and the chain read from a state\<close>

lemma seg_next_prev:
  "seg m t prv is None \<Longrightarrow> i \<in> set is \<Longrightarrow> m i = Some a \<Longrightarrow> nextPageId a = Some b
     \<Longrightarrow> \<exists>pb. m b = Some pb \<and> prevPageId pb = Some i"
proof (induction "is" arbitrary: prv)
  case Nil
  then show ?case by simp
next
  case (Cons x xs)
  show ?case
  proof (cases "i = x")
    case True
    with Cons.prems show ?thesis by (cases xs) (auto split: option.splits)
  next
    case False
    with Cons.prems have "seg m t (Some x) xs None" "i \<in> set xs" by (auto split: option.splits)
    from Cons.IH [OF this Cons.prems(3,4)] show ?thesis .
  qed
qed

lemma seg_adjacent:
  assumes "seg m t prv (xs @ x # y # ys) nxt"
  shows "\<exists>px py. m x = Some px \<and> m y = Some py \<and> nextPageId px = Some y
           \<and> prevPageId py = Some x"
proof -
  from assms have "seg m t (case xs of [] \<Rightarrow> prv | _ \<Rightarrow> Some (last xs)) (x # y # ys) nxt"
    by (simp add: seg_append)
  then show ?thesis by (auto split: option.splits)
qed

lemma seg_prev_next:
  assumes sg: "seg m t None is nxt" and i: "i \<in> set is" and a: "m i = Some a"
    and pb: "prevPageId a = Some b"
  shows "\<exists>pb. m b = Some pb \<and> nextPageId pb = Some i"
proof -
  from i obtain us vs where d: "is = us @ i # vs" by (auto dest: split_list)
  show ?thesis
  proof (cases us rule: rev_cases)
    case Nil
    with d sg a pb show ?thesis by (auto split: option.splits)
  next
    case (snoc xs p)
    with d have "is = xs @ p # i # vs" by simp
    from seg_adjacent [OF sg [unfolded this]] a pb show ?thesis by auto
  qed
qed

lemma chain_links:
  assumes d: "distinct (map pid ps)" and ch: "chainOf (lookup ps) t is"
    and a: "a \<in> set ps" "indexType a = t"
  shows "nextPageId a = Some b \<Longrightarrow> \<exists>pb. lookup ps b = Some pb \<and> prevPageId pb = Some (pid a)"
    and "prevPageId a = Some b \<Longrightarrow> \<exists>pb. lookup ps b = Some pb \<and> nextPageId pb = Some (pid a)"
proof -
  from lookup_distinct [OF d a(1)] have la: "lookup ps (pid a) = Some a" .
  from ch la a(2) have i: "pid a \<in> set is" and sg: "seg (lookup ps) t None is None"
    unfolding chainOf_def by auto
  show "\<exists>pb. lookup ps b = Some pb \<and> prevPageId pb = Some (pid a)" if "nextPageId a = Some b"
    using seg_next_prev [OF sg i la that] .
  show "\<exists>pb. lookup ps b = Some pb \<and> nextPageId pb = Some (pid a)" if "prevPageId a = Some b"
    using seg_prev_next [OF sg i la that] .
qed

lemma stateInv_links:
  assumes "stateInv s"
  shows "linksConsistent (pages s)"
proof -
  let ?ps = "pages s"
  from assms obtain "is" js where d: "distinct (map pid ?ps)"
    and p: "chainOf (lookup ?ps) PRIMARY is" and q: "chainOf (lookup ?ps) SECONDARY js"
    unfolding stateInv_def baseInv_def by blast
  have l: "(nextPageId a = Some b \<longrightarrow> (\<exists>pb. lookup ?ps b = Some pb \<and> prevPageId pb = Some (pid a)))
      \<and> (prevPageId a = Some b \<longrightarrow> (\<exists>pb. lookup ?ps b = Some pb \<and> nextPageId pb = Some (pid a)))"
    if a: "a \<in> set ?ps" for a b
  proof (cases "indexType a")
    case PRIMARY
    from chain_links [OF d p a PRIMARY] show ?thesis by blast
  next
    case SECONDARY
    from chain_links [OF d q a SECONDARY] show ?thesis by blast
  qed
  then show ?thesis unfolding linksConsistent_def lookup_def by blast
qed

lemma typeHead_chain:
  assumes d: "distinct (map pid ps)" and ch: "chainOf (lookup ps) t is"
  shows "\<exists>h. find (\<lambda>p. indexType p = t \<and> prevPageId p = None) ps = Some h
           \<and> lookup ps (hd is) = Some h"
proof -
  let ?m = "lookup ps"
  let ?P = "\<lambda>p. indexType p = t \<and> prevPageId p = None"
  from ch obtain i0 rest where isq: "is = i0 # rest" unfolding chainOf_def by (cases "is") auto
  from ch have sg: "seg ?m t None is None"
    and all: "\<forall>i p. ?m i = Some p \<longrightarrow> indexType p = t \<longrightarrow> i \<in> set is"
    unfolding chainOf_def by auto
  from sg isq obtain h0 where h0: "?m i0 = Some h0" "indexType h0 = t" "prevPageId h0 = None"
    by (auto split: option.splits)
  then have "h0 \<in> set ps" by (auto dest: lookup_SomeD)
  with h0(2,3) have "find ?P ps \<noteq> None" by (auto simp: find_None_iff)
  then obtain h where h: "find ?P ps = Some h" by auto
  from find_SomeD [OF h] have hp: "prevPageId h = None" "h \<in> set ps" "indexType h = t" by auto
  from lookup_distinct [OF d hp(2)] have mh: "?m (pid h) = Some h" .
  with all hp(3) have "pid h \<in> set is" by blast
  have "pid h = i0"
  proof (rule ccontr)
    assume "pid h \<noteq> i0"
    with \<open>pid h \<in> set is\<close> isq have "pid h \<in> set (tl is)" by simp
    from seg_tail_prev [OF sg this] mh hp(1) show False by simp
  qed
  with mh h0(1) have "h = h0" by simp
  with h h0(1) isq show ?thesis by simp
qed

lemma pagesAt_Cons: "m i = Some p \<Longrightarrow> pagesAt m (i # is) = p # pagesAt m is"
  by (simp add: pagesAt_def)

lemma chainFrom_seg:
  "seg (lookup ps) t prv (i # rest) None \<Longrightarrow> lookup ps i = Some p \<Longrightarrow> length rest < fuel
     \<Longrightarrow> chainFrom fuel ps (Some p) = Some (pagesAt (lookup ps) (i # rest))"
proof (induction rest arbitrary: i p prv fuel)
  case Nil
  then obtain f where "fuel = Suc f" by (cases fuel) auto
  with Nil show ?case by (simp add: pagesAt_def)
next
  case (Cons j rest)
  then obtain f where f: "fuel = Suc f" "length rest < f" by (cases fuel) auto
  from Cons.prems(1,2) have nx: "nextPageId p = Some j"
    and sg: "seg (lookup ps) t (Some i) (j # rest) None" by simp_all
  from sg obtain q where q: "lookup ps j = Some q" by (auto split: option.splits)
  from Cons.IH [OF sg q f(2)] have "chainFrom f ps (Some q) = Some (pagesAt (lookup ps) (j # rest))" .
  with nx q f(1) Cons.prems(2) show ?case
    by (simp add: lookup_def [symmetric] pagesAt_Cons)
qed

lemma chain_length:
  assumes "chainOf (lookup ps) t is"
  shows "length is \<le> length ps"
proof -
  from assms have d: "distinct is" by (simp add: chainOf_def)
  have "set is \<subseteq> set (map pid ps)"
  proof
    fix i assume "i \<in> set is"
    from chainOf_member [OF assms this] show "i \<in> set (map pid ps)"
      by (auto dest: lookup_SomeD)
  qed
  then have "card (set is) \<le> card (set (map pid ps))" by (intro card_mono) simp_all
  also have "\<dots> \<le> length (map pid ps)" by (rule card_length)
  finally show ?thesis using d by (simp add: distinct_card)
qed

lemma readChain_chain:
  assumes d: "distinct (map pid ps)" and ch: "chainOf (lookup ps) t is"
  shows "readChain ps t = Some (pagesAt (lookup ps) is)"
proof -
  from typeHead_chain [OF d ch] obtain h where
    h: "find (\<lambda>p. indexType p = t \<and> prevPageId p = None) ps = Some h" "lookup ps (hd is) = Some h"
    by blast
  from ch obtain i0 rest where isq: "is = i0 # rest" unfolding chainOf_def by (cases "is") auto
  from ch isq have sg: "seg (lookup ps) t None (i0 # rest) None" by (simp add: chainOf_def)
  from chain_length [OF ch] isq have "length rest < length ps" by simp
  from chainFrom_seg [OF sg _ this] h isq show ?thesis by (simp add: readChain_def)
qed

lemma pagesAt_records:
  "concat (map records (pagesAt m is)) = chainRecs m is"
  by (induction "is") (auto simp: pagesAt_def chainRecs_def recsOf_def split: option.splits)

lemma pagesAt_set:
  assumes d: "distinct (map pid ps)" and ch: "chainOf (lookup ps) t is"
  shows "set (pagesAt (lookup ps) is) = {p \<in> set ps. indexType p = t}"
proof -
  have s: "set (pagesAt (lookup ps) is) = {p. \<exists>i \<in> set is. lookup ps i = Some p}"
    by (auto simp: pagesAt_def split: option.splits)
  show ?thesis
  proof (intro set_eqI iffI)
    fix p assume "p \<in> set (pagesAt (lookup ps) is)"
    with s obtain i where i: "i \<in> set is" "lookup ps i = Some p" by auto
    from chainOf_member [OF ch i(1)] i(2) lookup_SomeD [OF i(2)]
    show "p \<in> {p \<in> set ps. indexType p = t}" by auto
  next
    fix p assume "p \<in> {p \<in> set ps. indexType p = t}"
    then have p: "p \<in> set ps" "indexType p = t" by auto
    from lookup_distinct [OF d p(1)] have l: "lookup ps (pid p) = Some p" .
    with ch p(2) have "pid p \<in> set is" unfolding chainOf_def by blast
    with l s show "p \<in> set (pagesAt (lookup ps) is)" by auto
  qed
qed

lemma sorted_page:
  assumes "sorted_wrt (<) (map rid (chainRecs m is))" "i \<in> set is"
  shows "sorted_wrt (<) (map rid (recsOf m i))"
proof -
  from assms(2) obtain us vs where "is = us @ i # vs" by (auto dest: split_list)
  with assms(1) show ?thesis by (simp add: sorted_wrt_append)
qed

section \<open>Sequences of inserts\<close>

lemma primaryKeys_chain:
  assumes d: "distinct (map pid (pages s))" and ch: "chainOf (lookup (pages s)) PRIMARY is"
  shows "primaryKeys s = rid ` set (chainRecs (lookup (pages s)) is)"
proof -
  have "set (chainRecs (lookup (pages s)) is)
          = (\<Union>p \<in> set (pagesAt (lookup (pages s)) is). set (records p))"
    by (simp add: pagesAt_records [symmetric])
  also have "\<dots> = (\<Union>p \<in> {p \<in> set (pages s). indexType p = PRIMARY}. set (records p))"
    by (simp only: pagesAt_set [OF d ch])
  finally show ?thesis unfolding primaryKeys_def by auto
qed

lemma insertRecord_keys:
  assumes "stateInv s"
  shows "\<exists>s'. insertRecord lc s i v = Some s' \<and> stateInv s'
           \<and> primaryKeys s' = insert i (primaryKeys s)"
proof -
  from assms obtain "is" js where a: "baseInv (pages s) (pageCounter s)"
    "chainOf (lookup (pages s)) PRIMARY is" "primaryOrdered (lookup (pages s)) is"
    "chainOf (lookup (pages s)) SECONDARY js"
    unfolding stateInv_def by blast
  let ?K = "rid ` set (chainRecs (lookup (pages s)) is)"
  from insertRecord_effect [OF a, of lc i v] obtain s' is' js' where
    e: "insertRecord lc s i v = Some s'" "baseInv (pages s') (pageCounter s')"
      "chainOf (lookup (pages s')) PRIMARY is'" "primaryOrdered (lookup (pages s')) is'"
      "chainOf (lookup (pages s')) SECONDARY js'"
    and l: "if i \<in> ?K
         then is' = is
            \<and> (\<forall>j \<in> set is. lookup (pages s') j = map_option cleanPage (lookup (pages s) j))
            \<and> logs s' = committedLog (duplicateLog (logs s) (newRecord i v)) i v
         else mset (chainRecs (lookup (pages s')) is')
                = add_mset (newRecord i v) (mset (map cleanRecord (chainRecs (lookup (pages s)) is)))"
    by (elim exE conjE)
  from e have inv': "stateInv s'" unfolding stateInv_def by blast
  have d: "distinct (map pid (pages s))" "distinct (map pid (pages s'))"
    using a(1) e(2) by (simp_all add: baseInv_def)
  have k: "primaryKeys s = ?K" using primaryKeys_chain [OF d(1) a(2)] .
  have k': "primaryKeys s' = rid ` set (chainRecs (lookup (pages s')) is')"
    using primaryKeys_chain [OF d(2) e(3)] .
  have "rid ` set (chainRecs (lookup (pages s')) is') = insert i ?K"
  proof (cases "i \<in> ?K")
    case True
    with l have eq: "is' = is"
      and same: "\<forall>j \<in> set is. lookup (pages s') j = map_option cleanPage (lookup (pages s) j)"
      by (simp_all only: if_True) blast+
    have "chainRecs (lookup (pages s')) is = chainRecs (lookup (map cleanPage (pages s))) is"
      using same by (intro chainRecs_cong) (simp add: recsOf_def lookup_clean)
    then have "rid ` set (chainRecs (lookup (pages s')) is) = ?K"
      by (simp add: chainRecs_clean image_image)
    with True eq show ?thesis by auto
  next
    case False
    with l have "mset (chainRecs (lookup (pages s')) is')
        = add_mset (newRecord i v) (mset (map cleanRecord (chainRecs (lookup (pages s)) is)))"
      by (simp only: if_False)
    then have "set (chainRecs (lookup (pages s')) is')
        = insert (newRecord i v) (cleanRecord ` set (chainRecs (lookup (pages s)) is))"
      by (metis set_mset_mset set_mset_add_mset_insert set_map)
    then show ?thesis by (simp add: image_image newRecord_def)
  qed
  with k k' e(1) inv' show ?thesis by simp
qed

lemma insertAll_keys:
  "stateInv s \<Longrightarrow> \<exists>s'. insertAll lc s ops = Some s' \<and> stateInv s'
     \<and> primaryKeys s' = primaryKeys s \<union> set (map fst ops)"
proof (induction ops arbitrary: s)
  case Nil
  then show ?case by simp
next
  case (Cons x ops)
  obtain i v where x: "x = (i, v)" by (cases x)
  from insertRecord_keys [OF Cons.prems, of lc i v] obtain s1 where
    s1: "insertRecord lc s i v = Some s1" "stateInv s1" "primaryKeys s1 = insert i (primaryKeys s)"
    by blast
  from Cons.IH [OF s1(2)] obtain s' where
    "insertAll lc s1 ops = Some s'" "stateInv s'"
    "primaryKeys s' = primaryKeys s1 \<union> set (map fst ops)" by blast
  with s1 x show ?case by auto
qed

lemma primaryKeys_initial: "primaryKeys initializeEngine = {}"
  by (auto simp: primaryKeys_def initializeEngine_def createPage_def)

text \<open>
  Claim C1.  For every sequence of \<open>insertRecord\<close> calls starting from
  \<open>initializeEngine\<close> (with pairwise distinct ids or not) every call returns, and in the
  state after the sequence, hence after each insert, the primary chain read from head to
  tail ends, contains every page of the primary index, and yields exactly the inserted
  ids, in strictly ascending order; and all links of both chains are mutually consistent:
  a page that is the \<open>nextPageId\<close> of page A has A as its \<open>prevPageId\<close>, and a page that
  is the \<open>prevPageId\<close> of A has A as its \<open>nextPageId\<close>.
\<close>

theorem primary_chain_ascending:
  "\<exists>s chain. insertAll lc initializeEngine ops = Some s
     \<and> readChain (pages s) PRIMARY = Some chain
     \<and> set chain = {p \<in> set (pages s). indexType p = PRIMARY}
     \<and> sorted_wrt (<) (map rid (concat (map records chain)))
     \<and> set (map rid (concat (map records chain))) = set (map fst ops)
     \<and> linksConsistent (pages s)"
proof -
  from insertAll_keys [OF stateInv_initial, of lc ops] obtain s where
    s: "insertAll lc initializeEngine ops = Some s" "stateInv s"
      "primaryKeys s = set (map fst ops)"
    by (auto simp: primaryKeys_initial)
  from s(2) obtain "is" where d: "distinct (map pid (pages s))"
    and ch: "chainOf (lookup (pages s)) PRIMARY is"
    and ord: "primaryOrdered (lookup (pages s)) is"
    unfolding stateInv_def baseInv_def by blast
  let ?chain = "pagesAt (lookup (pages s)) is"
  have "readChain (pages s) PRIMARY = Some ?chain" using d ch by (rule readChain_chain)
  moreover have "set ?chain = {p \<in> set (pages s). indexType p = PRIMARY}"
    using d ch by (rule pagesAt_set)
  moreover have "sorted_wrt (<) (map rid (concat (map records ?chain)))"
    using ord by (simp add: pagesAt_records primaryOrdered_def)
  moreover have "set (map rid (concat (map records ?chain))) = set (map fst ops)"
    using primaryKeys_chain [OF d ch] s(3) by (simp add: pagesAt_records)
  moreover have "linksConsistent (pages s)" using s(2) by (rule stateInv_links)
  ultimately show ?thesis using s(1) by blast
qed

text \<open>
  Claim C3.  For every sequence of \<open>insertRecord\<close> calls starting from
  \<open>initializeEngine\<close>, with ids that need not be distinct, every call returns and no
  primary page of the state reached holds two records with the same id.
\<close>

theorem primary_pages_unique_ids:
  "\<exists>s. insertAll lc initializeEngine ops = Some s
     \<and> (\<forall>p \<in> set (pages s). indexType p = PRIMARY \<longrightarrow> distinct (map rid (records p)))"
proof -
  from insertAll_inv [OF stateInv_initial, of lc ops] obtain s where
    s: "insertAll lc initializeEngine ops = Some s" "stateInv s" by blast
  from s(2) obtain "is" where d: "distinct (map pid (pages s))"
    and ch: "chainOf (lookup (pages s)) PRIMARY is"
    and ord: "primaryOrdered (lookup (pages s)) is"
    unfolding stateInv_def baseInv_def by blast
  have "distinct (map rid (records p))" if p: "p \<in> set (pages s)" "indexType p = PRIMARY" for p
  proof -
    from lookup_distinct [OF d p(1)] have l: "lookup (pages s) (pid p) = Some p" .
    with ch p(2) have "pid p \<in> set is" unfolding chainOf_def by blast
    with ord have "sorted_wrt (<) (map rid (recsOf (lookup (pages s)) (pid p)))"
      unfolding primaryOrdered_def by (intro sorted_page) simp_all
    with l have "sorted_wrt (<) (map rid (records p))" by (simp add: recsOf_def)
    then show ?thesis by (simp add: strict_sorted_iff)
  qed
  with s(1) show ?thesis by blast
qed

text \<open>
  The theorem at the scenario of the specification: the chain is page 1 followed by page 3
  and reads 1, 2, 3, 4, 5.
\<close>

theorem primary_chain_ascending_witness:
  "\<exists>s chain. scenarioState = Some s
     \<and> readChain (pages s) PRIMARY = Some chain
     \<and> map pid chain = [1, 3]
     \<and> map rid (concat (map records chain)) = [1, 2, 3, 4, 5]
     \<and> sorted_wrt (<) (map rid (concat (map records chain)))
     \<and> linksConsistent (pages s)"
proof -
  let ?ops = "[(1, ''Alice''), (2, ''Bob''), (3, ''Charlie''), (4, ''Dave''), (5, ''Eve'')]"
  from primary_chain_ascending [of strCompare ?ops] obtain s chain where
    a: "insertAll strCompare initializeEngine ?ops = Some s"
      "readChain (pages s) PRIMARY = Some chain"
      "sorted_wrt (<) (map rid (concat (map records chain)))"
      "linksConsistent (pages s)"
    by blast
  have s: "scenarioState = Some s" unfolding scenarioState_def by (rule a(1))
  then have ts: "the scenarioState = s" by (metis option.sel)
  have "map_option (map pid) (readChain (pages (the scenarioState)) PRIMARY) = Some [1, 3]"
    by code_simp
  with a(2) have b: "map pid chain = [1, 3]" unfolding ts by simp
  have "map_option (\<lambda>c. map rid (concat (map records c)))
          (readChain (pages (the scenarioState)) PRIMARY) = Some [1, 2, 3, 4, 5]"
    by code_simp
  with a(2) have c: "map rid (concat (map records chain)) = [1, 2, 3, 4, 5]" unfolding ts by simp
  from s a(2) b c a(3,4) show ?thesis by (intro exI conjI)
qed

text \<open>
  The theorem at a sequence that repeats the id 1: the primary page holds the ids 1, 2
  once each.
\<close>

theorem primary_pages_unique_ids_witness:
  "\<exists>s p. repeatState = Some s \<and> p \<in> set (pages s) \<and> indexType p = PRIMARY
     \<and> map rid (records p) = [1, 2] \<and> distinct (map rid (records p))"
proof -
  let ?ops = "[(1, ''Alice''), (2, ''Bob''), (1, ''Carol'')]"
  from primary_pages_unique_ids [of strCompare ?ops] obtain s where
    a: "insertAll strCompare initializeEngine ?ops = Some s"
      "\<forall>p \<in> set (pages s). indexType p = PRIMARY \<longrightarrow> distinct (map rid (records p))"
    by blast
  have s: "repeatState = Some s" unfolding repeatState_def by (rule a(1))
  then have ts: "the repeatState = s" by (metis option.sel)
  define p where "p = hd (pages s)"
  have "hd (pages (the repeatState)) \<in> set (pages (the repeatState))" by code_simp
  then have b: "p \<in> set (pages s)" unfolding ts p_def .
  have "indexType (hd (pages (the repeatState))) = PRIMARY" by code_simp
  then have c: "indexType p = PRIMARY" unfolding ts p_def .
  have "map rid (records (hd (pages (the repeatState)))) = [1, 2]" by code_simp
  then have d: "map rid (records p) = [1, 2]" unfolding ts p_def .
  from a(2) b c have e: "distinct (map rid (records p))" by blast
  from s b c d e show ?thesis by (intro exI conjI)
qed

section \<open>A duplicate primary key\<close>

lemma pagesAt_map:
  "(\<And>j. j \<in> set is \<Longrightarrow> m' j = map_option f (m j)) \<Longrightarrow> pagesAt m' is = map f (pagesAt m is)"
  by (induction "is") (auto simp: pagesAt_def split: option.splits)

text \<open>
  Claim C4.  For every state of the engine, that is every state reached from
  \<open>initializeEngine\<close> by \<open>insertRecord\<close> calls (a reset leads back to
  \<open>initializeEngine\<close>, lemma \<open>runOps_insertAll\<close> below), and every
  \<open>insertRecord(state, id, value)\<close> where \<open>id\<close> already exists in the primary index: the
  call returns; the primary chain afterwards consists of the same pages with the same
  records, the display flags, which every call clears, apart; the log gains the error
  entry of the duplicate key and then, on top, the info entry \<open>Transaction Committed\<close>;
  and the secondary chain gains exactly one record, with the given value and id.
\<close>

theorem duplicate_primary_key:
  assumes reach: "insertAll lc initializeEngine ops = Some s"
    and dup: "i \<in> primaryKeys s"
  shows "\<exists>s' chain sec sec'. insertRecord lc s i v = Some s'
     \<and> readChain (pages s) PRIMARY = Some chain
     \<and> readChain (pages s') PRIMARY = Some (map cleanPage chain)
     \<and> logs s' =
         \<lparr>message = ''Transaction Committed: Inserted ('' @ show_int i @ '', '' @ dq @ v @ dq @ '').'',
           logType = info\<rparr>
         # take 49 (\<lparr>message = ''Duplicate Key Error: ID '' @ show_int i @ '' exists.'',
                       logType = error\<rparr> # take 49 (logs s))
     \<and> readChain (pages s) SECONDARY = Some sec
     \<and> readChain (pages s') SECONDARY = Some sec'
     \<and> mset (concat (map records sec'))
           = add_mset (newRecord i v) (mset (map cleanRecord (concat (map records sec))))"
proof -
  from insertAll_inv [OF stateInv_initial, of lc ops] reach have inv: "stateInv s" by simp
  then obtain "is" js where a: "baseInv (pages s) (pageCounter s)"
    "chainOf (lookup (pages s)) PRIMARY is" "primaryOrdered (lookup (pages s)) is"
    "chainOf (lookup (pages s)) SECONDARY js"
    unfolding stateInv_def by blast
  let ?m = "lookup (pages s)"
  from a(1) have d: "distinct (map pid (pages s))" by (simp add: baseInv_def)
  from dup primaryKeys_chain [OF d a(2)] have k: "i \<in> rid ` set (chainRecs ?m is)" by simp
  from insertRecord_effect [OF a, of lc i v] obtain s' is' js' where
    e: "insertRecord lc s i v = Some s'" "baseInv (pages s') (pageCounter s')"
      "chainOf (lookup (pages s')) PRIMARY is'"
      "chainOf (lookup (pages s')) SECONDARY js'"
      "mset (chainRecs (lookup (pages s')) js')
         = add_mset (newRecord i v) (mset (map cleanRecord (chainRecs ?m js)))"
    and l: "if i \<in> rid ` set (chainRecs ?m is)
         then is' = is
            \<and> (\<forall>j \<in> set is. lookup (pages s') j = map_option cleanPage (?m j))
            \<and> logs s' = committedLog (duplicateLog (logs s) (newRecord i v)) i v
         else mset (chainRecs (lookup (pages s')) is')
                = add_mset (newRecord i v) (mset (map cleanRecord (chainRecs ?m is)))"
    by (elim exE conjE)
  let ?m' = "lookup (pages s')"
  from l k have eq: "is' = is" and same: "\<forall>j \<in> set is. ?m' j = map_option cleanPage (?m j)"
    and lg: "logs s' = committedLog (duplicateLog (logs s) (newRecord i v)) i v"
    by (simp_all only: if_True) blast+
  from e(2) have d': "distinct (map pid (pages s'))" by (simp add: baseInv_def)
  have c1: "readChain (pages s) PRIMARY = Some (pagesAt ?m is)" using d a(2) by (rule readChain_chain)
  have "readChain (pages s') PRIMARY = Some (pagesAt ?m' is)"
    using readChain_chain [OF d' e(3)] eq by simp
  moreover have "pagesAt ?m' is = map cleanPage (pagesAt ?m is)"
    using same by (intro pagesAt_map) simp
  ultimately have c2: "readChain (pages s') PRIMARY = Some (map cleanPage (pagesAt ?m is))" by simp
  have c3: "readChain (pages s) SECONDARY = Some (pagesAt ?m js)" using d a(4) by (rule readChain_chain)
  have c4: "readChain (pages s') SECONDARY = Some (pagesAt ?m' js')"
    using d' e(4) by (rule readChain_chain)
  have c5: "mset (concat (map records (pagesAt ?m' js')))
      = add_mset (newRecord i v) (mset (map cleanRecord (concat (map records (pagesAt ?m js)))))"
    using e(5) by (simp add: pagesAt_records)
  have c6: "logs s' =
         \<lparr>message = ''Transaction Committed: Inserted ('' @ show_int i @ '', '' @ dq @ v @ dq @ '').'',
           logType = info\<rparr>
         # take 49 (\<lparr>message = ''Duplicate Key Error: ID '' @ show_int i @ '' exists.'',
                       logType = error\<rparr> # take 49 (logs s))"
    unfolding lg by (simp add: committedLog_def duplicateLog_def addLog_def newRecord_def)
  from e(1) c1 c2 c6 c3 c4 c5 show ?thesis by (intro exI conjI)
qed

text \<open>
  The theorem at the state after the inserts 1 and 2 and a further insert with the id 1:
  the primary chain is the one page with the keys 1, 2 before and after, and the log
  gains the error entry and the info entry.
\<close>

theorem duplicate_primary_key_witness:
  "\<exists>s s' chain. pairState = Some s \<and> 1 \<in> primaryKeys s
     \<and> insertRecord strCompare s 1 ''Carol'' = Some s'
     \<and> readChain (pages s) PRIMARY = Some chain
     \<and> readChain (pages s') PRIMARY = Some (map cleanPage chain)
     \<and> map (\<lambda>p. map rid (records p)) chain = [[1, 2]]
     \<and> map logType (logs s') = [info, error, info, info, success]"
proof -
  define s where "s = the pairState"
  have a: "pairState = Some s" unfolding s_def by code_simp
  then have reach: "insertAll strCompare initializeEngine [(1, ''Alice''), (2, ''Bob'')] = Some s"
    unfolding pairState_def .
  have m: "hd (pages s) \<in> set (pages s)" "indexType (hd (pages s)) = PRIMARY"
    "hd (records (hd (pages s))) \<in> set (records (hd (pages s)))"
    "1 = rid (hd (records (hd (pages s))))"
    unfolding s_def by code_simp+
  have dup: "1 \<in> primaryKeys s"
    unfolding primaryKeys_def by (simp only: mem_Collect_eq) (intro exI conjI; rule m)
  from duplicate_primary_key [OF reach dup, of "''Carol''"] obtain s' chain where
    b: "insertRecord strCompare s 1 ''Carol'' = Some s'"
      "readChain (pages s) PRIMARY = Some chain"
      "readChain (pages s') PRIMARY = Some (map cleanPage chain)"
    and l: "logs s' =
         \<lparr>message = ''Transaction Committed: Inserted ('' @ show_int 1 @ '', '' @ dq @ ''Carol'' @ dq @ '').'',
           logType = info\<rparr>
         # take 49 (\<lparr>message = ''Duplicate Key Error: ID '' @ show_int 1 @ '' exists.'',
                       logType = error\<rparr> # take 49 (logs s))"
    by (elim exE conjE)
  have "map (\<lambda>p. map rid (records p)) (the (readChain (pages s) PRIMARY)) = [[1, 2]]"
    unfolding s_def by code_simp
  with b(2) have c: "map (\<lambda>p. map rid (records p)) chain = [[1, 2]]" by simp
  have "map logType (logs s) = [info, info, success]" unfolding s_def by code_simp
  then have d: "map logType (logs s') = [info, error, info, info, success]"
    unfolding l by (simp add: take_map [symmetric])
  from a dup b c d show ?thesis by (intro exI conjI)
qed

section \<open>Page ids\<close>

text \<open>
  Claim C8, as amended.  In every state reached from \<open>initializeEngine\<close> by insert and
  reset operations the page ids are pairwise distinct and at most the counter; every
  \<open>insertRecord\<close> call on it returns, leaves the counter as it is or increases it, keeps
  the ids of the existing pages, and gives the pages it allocates ids above the old
  counter, which no page has had since the last reset.  A reset starts over: the counter
  is 2 again and the two pages have the ids 1 and 2 again.
\<close>

theorem page_ids_fresh:
  assumes "runOps lc initializeEngine ops = Some s"
  shows "distinct (map pid (pages s))
     \<and> (\<forall>p \<in> set (pages s). pid p \<le> pageCounter s)
     \<and> (\<exists>s' new. insertRecord lc s i v = Some s'
           \<and> pageCounter s \<le> pageCounter s'
           \<and> map pid (pages s') = map pid (pages s) @ new
           \<and> (\<forall>n \<in> set new. pageCounter s < n \<and> n \<le> pageCounter s')
           \<and> distinct (map pid (pages s')))
     \<and> pageCounter resetEngine = 2 \<and> map pid (pages resetEngine) = [1, 2]"
proof -
  from runOps_inv [OF stateInv_initial, of lc ops] assms have inv: "stateInv s" by simp
  then have b: "distinct (map pid (pages s))" "\<forall>p \<in> set (pages s). pid p \<le> pageCounter s"
    by (auto simp: stateInv_def baseInv_def)
  from insertRecord_preserves [OF inv, of lc i v] obtain s' new where
    s': "insertRecord lc s i v = Some s'" "stateInv s'" "pageCounter s \<le> pageCounter s'"
      "map pid (pages s') = map pid (pages s) @ new"
      "\<forall>n \<in> set new. pageCounter s < n \<and> n \<le> pageCounter s'"
    by blast
  from s'(2) have "distinct (map pid (pages s'))" by (simp add: stateInv_def baseInv_def)
  with s' have "\<exists>s' new. insertRecord lc s i v = Some s'
           \<and> pageCounter s \<le> pageCounter s'
           \<and> map pid (pages s') = map pid (pages s) @ new
           \<and> (\<forall>n \<in> set new. pageCounter s < n \<and> n \<le> pageCounter s')
           \<and> distinct (map pid (pages s'))" by blast
  moreover have "pageCounter resetEngine = 2" "map pid (pages resetEngine) = [1, 2]"
    by (simp_all add: resetEngine_def initializeEngine_def createPage_def)
  ultimately show ?thesis using b by blast
qed

text \<open>
  The theorem at the state after an insert, a reset and four inserts, and a fifth insert:
  both pages split, the counter goes from 2 to 4 and the new pages get the ids 3 and 4.
\<close>

theorem page_ids_fresh_witness:
  "\<exists>s s' new. runOps strCompare initializeEngine restartOps = Some s
     \<and> pageCounter s = 2 \<and> map pid (pages s) = [1, 2]
     \<and> insertRecord strCompare s 5 ''Eve'' = Some s'
     \<and> pageCounter s' = 4
     \<and> map pid (pages s') = map pid (pages s) @ new \<and> new = [3, 4]
     \<and> distinct (map pid (pages s'))"
proof -
  define s where "s = the (runOps strCompare initializeEngine restartOps)"
  have a: "runOps strCompare initializeEngine restartOps = Some s" unfolding s_def by code_simp
  have b: "pageCounter s = 2" "map pid (pages s) = [1, 2]" unfolding s_def by code_simp+
  from page_ids_fresh [OF a, of 5 "''Eve''"] obtain s' new where
    c: "insertRecord strCompare s 5 ''Eve'' = Some s'"
      "map pid (pages s') = map pid (pages s) @ new"
      "distinct (map pid (pages s'))"
    by (elim exE conjE)
  have "pageCounter (the (insertRecord strCompare s 5 ''Eve'')) = 4"
    "map pid (pages (the (insertRecord strCompare s 5 ''Eve''))) = [1, 2, 3, 4]"
    unfolding s_def by code_simp+
  with c(1) have d: "pageCounter s' = 4" "map pid (pages s') = [1, 2, 3, 4]" by simp_all
  from c(2) d(2) b(2) have e: "new = [3, 4]" by simp
  from a b c(1) d(1) c(2) e c(3) show ?thesis by (intro exI conjI)
qed

text \<open>
  Claim C8 as stated fails: after the five inserts of the scenario the counter is 4 and
  the ids 1, 2, 3, 4 are allocated; a reset takes the counter back to 2, and the same five
  inserts after it allocate the ids 3 and 4 a second time.
\<close>

theorem page_ids_fresh_counterexample:
  "\<exists>s r t. runOps strCompare initializeEngine scenarioOps = Some s
     \<and> pageCounter s = 4 \<and> map pid (pages s) = [1, 2, 3, 4]
     \<and> runOps strCompare initializeEngine (scenarioOps @ [Reset]) = Some r
     \<and> pageCounter r = 2 \<and> map pid (pages r) = [1, 2]
     \<and> runOps strCompare initializeEngine (scenarioOps @ [Reset] @ scenarioOps) = Some t
     \<and> pageCounter t = 4 \<and> map pid (pages t) = [1, 2, 3, 4]"
proof -
  define s where "s = the (runOps strCompare initializeEngine scenarioOps)"
  define r where "r = the (runOps strCompare initializeEngine (scenarioOps @ [Reset]))"
  define t where "t = the (runOps strCompare initializeEngine (scenarioOps @ [Reset] @ scenarioOps))"
  have a: "runOps strCompare initializeEngine scenarioOps = Some s"
    "pageCounter s = 4" "map pid (pages s) = [1, 2, 3, 4]"
    unfolding s_def by code_simp+
  have b: "runOps strCompare initializeEngine (scenarioOps @ [Reset]) = Some r"
    "pageCounter r = 2" "map pid (pages r) = [1, 2]"
    unfolding r_def by code_simp+
  have c: "runOps strCompare initializeEngine (scenarioOps @ [Reset] @ scenarioOps) = Some t"
    "pageCounter t = 4" "map pid (pages t) = [1, 2, 3, 4]"
    unfolding t_def by code_simp+
  from a b c show ?thesis by (intro exI conjI)
qed

section \<open>The snapshot for the summarisation service\<close>

lemma primary_page_sorted:
  assumes inv: "stateInv s" and p: "p \<in> set (pages s)" "indexType p = PRIMARY"
  shows "sorted_wrt (<) (map rid (records p))"
proof -
  let ?m = "lookup (pages s)"
  from inv obtain "is" where d: "distinct (map pid (pages s))"
    and ch: "chainOf ?m PRIMARY is" and ord: "primaryOrdered ?m is"
    unfolding stateInv_def baseInv_def by blast
  from p pagesAt_set [OF d ch] have "p \<in> set (pagesAt ?m is)" by simp
  then obtain i where i: "i \<in> set is" "?m i = Some p"
    by (auto simp: pagesAt_def split: option.splits)
  from ord have "sorted_wrt (<) (map rid (chainRecs ?m is))" by (simp add: primaryOrdered_def)
  from sorted_page [OF this i(1)] i(2) show ?thesis by (simp add: recsOf_def)
qed

text \<open>
  Claim C9, as amended.  For every engine state the snapshot handed to the summarisation
  service has one object per page, in page order, with exactly the fields \<open>page_id\<close>,
  \<open>records\<close>, \<open>next_page\<close>, \<open>prev_page\<close> and \<open>status\<close>; \<open>records\<close> lists the ids of the
  page's records in the order the page stores them; \<open>status\<close> is \<open>"FULL"\<close> exactly when
  the page holds at least \<open>PAGE_CAPACITY\<close> records and \<open>"HAS_SPACE"\<close> otherwise; and the
  snapshot does not depend on any display flag.  Every sequence of \<open>insertRecord\<close> calls
  from \<open>initializeEngine\<close> leads to a state in whose snapshot the \<open>records\<close> of every
  \<open>PRIMARY\<close> page are strictly ascending.
\<close>

theorem snapshot_projection:
  "length (simplePages state) = length (pages state)
   \<and> (\<forall>i < length (pages state).
        page_id (simplePages state ! i) = pid (pages state ! i)
      \<and> record_ids (simplePages state ! i) = map rid (records (pages state ! i))
      \<and> next_page (simplePages state ! i) = nextPageId (pages state ! i)
      \<and> prev_page (simplePages state ! i) = prevPageId (pages state ! i)
      \<and> (status (simplePages state ! i) = ''FULL''
            \<longleftrightarrow> length (records (pages state ! i)) \<ge> PAGE_CAPACITY)
      \<and> (status (simplePages state ! i) = ''HAS_SPACE''
            \<longleftrightarrow> length (records (pages state ! i)) < PAGE_CAPACITY))
   \<and> simplePages (state\<lparr>pages := map (withFlags d sp h n rh) (pages state)\<rparr>) = simplePages state
   \<and> (\<exists>s. insertAll lc initializeEngine ops = Some s
         \<and> (\<forall>i < length (pages s). indexType (pages s ! i) = PRIMARY
               \<longrightarrow> sorted_wrt (<) (record_ids (simplePages s ! i))))"
proof -
  have a1: "length (simplePages state) = length (pages state)"
    by (simp add: simplePages_def)
  have a2: "\<forall>i < length (pages state).
        page_id (simplePages state ! i) = pid (pages state ! i)
      \<and> record_ids (simplePages state ! i) = map rid (records (pages state ! i))
      \<and> next_page (simplePages state ! i) = nextPageId (pages state ! i)
      \<and> prev_page (simplePages state ! i) = prevPageId (pages state ! i)
      \<and> (status (simplePages state ! i) = ''FULL''
            \<longleftrightarrow> length (records (pages state ! i)) \<ge> PAGE_CAPACITY)
      \<and> (status (simplePages state ! i) = ''HAS_SPACE''
            \<longleftrightarrow> length (records (pages state ! i)) < PAGE_CAPACITY)"
    by (auto simp: simplePages_def simplePage_def PAGE_CAPACITY_def)
  have b: "simplePages (state\<lparr>pages := map (withFlags d sp h n rh) (pages state)\<rparr>) = simplePages state"
    by (simp add: simplePages_def simplePage_withFlags comp_def)
  from insertAll_inv [OF stateInv_initial, of lc ops] obtain s where
    s: "insertAll lc initializeEngine ops = Some s" "stateInv s" by blast
  have "sorted_wrt (<) (record_ids (simplePages s ! i))"
    if "i < length (pages s)" "indexType (pages s ! i) = PRIMARY" for i
    using primary_page_sorted [OF s(2) _ that(2)] that(1)
    by (simp add: simplePages_def simplePage_def)
  with s(1) have c: "\<exists>s. insertAll lc initializeEngine ops = Some s
         \<and> (\<forall>i < length (pages s). indexType (pages s ! i) = PRIMARY
               \<longrightarrow> sorted_wrt (<) (record_ids (simplePages s ! i)))" by blast
  from a1 a2 b c show ?thesis by (intro conjI)
qed

text \<open>
  The theorem at the state after the five inserts of the scenario and its third page, the
  primary page with the id 3 that the split has created.
\<close>

theorem snapshot_projection_witness:
  "\<exists>s. scenarioState = Some s \<and> 2 < length (pages s)
     \<and> indexType (pages s ! 2) = PRIMARY
     \<and> page_id (simplePages s ! 2) = 3
     \<and> record_ids (simplePages s ! 2) = [4, 5]
     \<and> sorted_wrt (<) (record_ids (simplePages s ! 2))
     \<and> next_page (simplePages s ! 2) = None
     \<and> prev_page (simplePages s ! 2) = Some 1
     \<and> status (simplePages s ! 2) = ''HAS_SPACE''"
proof -
  let ?ops = "[(1, ''Alice''), (2, ''Bob''), (3, ''Charlie''), (4, ''Dave''), (5, ''Eve'')]"
  define s where "s = the scenarioState"
  have a: "scenarioState = Some s" unfolding s_def by code_simp
  have b: "2 < length (pages s)" "indexType (pages s ! 2) = PRIMARY"
    "pid (pages s ! 2) = 3" "map rid (records (pages s ! 2)) = [4, 5]"
    "nextPageId (pages s ! 2) = None" "prevPageId (pages s ! 2) = Some 1"
    "length (records (pages s ! 2)) < PAGE_CAPACITY"
    unfolding s_def by code_simp+
  from a have r: "insertAll strCompare initializeEngine ?ops = Some s"
    unfolding scenarioState_def .
  note t = snapshot_projection [of s _ _ _ _ _ strCompare ?ops]
  note c = t [THEN conjunct2, THEN conjunct1]
  from t [THEN conjunct2, THEN conjunct2, THEN conjunct2] obtain s0 where
    s0: "insertAll strCompare initializeEngine ?ops = Some s0"
    and e0: "\<forall>i < length (pages s0). indexType (pages s0 ! i) = PRIMARY
               \<longrightarrow> sorted_wrt (<) (record_ids (simplePages s0 ! i))"
    by (elim exE conjE)
  from s0 r have "s0 = s" by simp
  with e0 have e: "\<forall>i < length (pages s). indexType (pages s ! i) = PRIMARY
               \<longrightarrow> sorted_wrt (<) (record_ids (simplePages s ! i))" by simp
  from c b have f: "page_id (simplePages s ! 2) = 3" "record_ids (simplePages s ! 2) = [4, 5]"
    "next_page (simplePages s ! 2) = None" "prev_page (simplePages s ! 2) = Some 1"
    "status (simplePages s ! 2) = ''HAS_SPACE''" by auto
  from e [rule_format, OF b(1) b(2)] have g: "sorted_wrt (<) (record_ids (simplePages s ! 2))" .
  from a b(1,2) f(1,2) g f(3,4,5) show ?thesis by (intro exI conjI)
qed

text \<open>
  Claim C9 as stated fails: after inserting \<open>(1, "Bob")\<close> and \<open>(2, "Alice")\<close> the snapshot of
  the secondary page lists the ids 2, 1, which is not ascending (the page is ordered by
  value).
\<close>

theorem snapshot_records_counterexample:
  "\<exists>s. insertAll strCompare initializeEngine [(1, ''Bob''), (2, ''Alice'')] = Some s
     \<and> map indexType (pages s) = [PRIMARY, SECONDARY]
     \<and> map record_ids (simplePages s) = [[1, 2], [2, 1]]"
proof -
  define s where "s = the (insertAll strCompare initializeEngine [(1, ''Bob''), (2, ''Alice'')])"
  have "insertAll strCompare initializeEngine [(1, ''Bob''), (2, ''Alice'')] = Some s"
    unfolding s_def by code_simp
  moreover have "map indexType (pages s) = [PRIMARY, SECONDARY]" unfolding s_def by code_simp
  moreover have "map record_ids (simplePages s) = [[1, 2], [2, 1]]" unfolding s_def by code_simp
  ultimately show ?thesis by (intro exI [of _ s] conjI)
qed

section \<open>Queries by name on a well-formed state\<close>

lemma scanSecondary_chain:
  assumes "seg (lookup ps) t prv (i # rest) None" and "lookup ps i = Some p"
    and "\<forall>j \<in> set rest. j \<noteq> 0"
  shows "scanSecondary (Some p) ps name st
           = Some (scanChain (pagesAt (lookup ps) (i # rest)) name st)"
  using assms
proof (induction rest arbitrary: i p prv st)
  case Nil
  then have "nextPageId p = None" by simp
  with Nil.prems(2) show ?case
    by (subst scanSecondary.simps) (simp add: pagesAt_def truthy_def split: option.splits)
next
  case (Cons j rest)
  let ?m = "lookup ps"
  let ?st1 = "addStep st (msgScanSecondary (pid p)) (pid p) SCAN_PAGE None"
  from Cons.prems have nx: "nextPageId p = Some j" and sg: "seg ?m t (Some i) (j # rest) None"
    and nz: "j \<noteq> 0" "\<forall>j \<in> set rest. j \<noteq> 0"
    by simp_all
  from sg obtain q where q: "?m j = Some q" by (auto split: option.splits)
  then have f: "find (\<lambda>x. Some (pid x) = nextPageId p) ps = Some q"
    using nx by (simp add: lookup_def)
  from Cons.IH [OF sg q nz(2)]
  have ih: "scanSecondary (Some q) ps name ?st1
              = Some (scanChain (pagesAt ?m (j # rest)) name ?st1)" .
  have pa: "pagesAt ?m (i # j # rest) = p # pagesAt ?m (j # rest)"
    using Cons.prems(2) by (simp add: pagesAt_def)
  show ?case
  proof (cases "find (\<lambda>r. rvalue r = name) (records p)")
    case None
    with f ih nx nz(1) show ?thesis
      unfolding pa by (subst scanSecondary.simps) (simp add: truthy_def)
  next
    case (Some found)
    then show ?thesis unfolding pa by (subst scanSecondary.simps) simp
  qed
qed

lemma scanChain_found:
  "\<exists>c \<in> set cs. \<exists>r \<in> set (records c). rvalue r = name
     \<Longrightarrow> \<exists>st' c pk. scanChain cs name st = FoundEntry st' c pk"
proof (induction cs arbitrary: st)
  case Nil
  then show ?case by simp
next
  case (Cons c cs)
  show ?case
  proof (cases "find (\<lambda>r. rvalue r = name) (records c)")
    case None
    then have "\<not> (\<exists>r \<in> set (records c). rvalue r = name)" by (simp add: find_None_iff)
    with Cons.prems have "\<exists>c \<in> set cs. \<exists>r \<in> set (records c). rvalue r = name" by auto
    from Cons.IH [OF this] None show ?thesis by simp
  next
    case (Some found)
    then show ?thesis by simp
  qed
qed

lemma seg_next_member:
  "seg m t prv is None \<Longrightarrow> i \<in> set is \<Longrightarrow> m i = Some a \<Longrightarrow> nextPageId a = Some b
     \<Longrightarrow> b \<in> set is"
proof (induction "is" arbitrary: prv)
  case Nil
  then show ?case by simp
next
  case (Cons x xs)
  show ?case
  proof (cases "i = x")
    case True
    with Cons.prems show ?thesis by (cases xs) (auto split: option.splits)
  next
    case False
    with Cons.prems have "i \<in> set xs" "seg m t (Some x) xs None" by (auto split: option.splits)
    from Cons.IH [OF this(2) this(1) Cons.prems(3,4)] show ?thesis by simp
  qed
qed

lemma chain_linksInside:
  assumes d: "distinct (map pid ps)" and ch: "chainOf (lookup ps) t is"
  shows "linksInside ps (set is)"
  unfolding linksInside_def
proof (intro ballI impI allI)
  fix p n assume p: "p \<in> set ps" "pid p \<in> set is" "nextPageId p = Some n"
  from ch have sg: "seg (lookup ps) t None is None" by (simp add: chainOf_def)
  from seg_next_member [OF sg p(2) lookup_distinct [OF d p(1)] p(3)] show "n \<in> set is" .
qed

lemma secondary_walk:
  assumes inv: "stateInv s"
  obtains js h where "chainOf (lookup (pages s)) SECONDARY js"
    "secondaryHead (pages s) = Some h"
    "scanSecondary (Some h) (pages s) name st
       = Some (scanChain (pagesAt (lookup (pages s)) js) name st)"
    "secondaryShape (set js) (pages s) name st (scanChain (pagesAt (lookup (pages s)) js) name st)"
proof -
  let ?ps = "pages s" and ?m = "lookup (pages s)"
  from inv obtain js where b: "baseInv ?ps (pageCounter s)" and ch: "chainOf ?m SECONDARY js"
    unfolding stateInv_def by blast
  from b have d: "distinct (map pid ?ps)" and pos: "\<forall>p \<in> set ?ps. 0 < pid p"
    by (simp_all add: baseInv_def)
  from ch obtain i rest where js: "js = i # rest" unfolding chainOf_def by (cases js) auto
  from ch have sg: "seg ?m SECONDARY None js None" by (simp add: chainOf_def)
  from typeHead_chain [OF d ch] obtain h where h: "secondaryHead ?ps = Some h" "?m i = Some h"
    unfolding secondaryHead_def js by auto
  have nz: "\<forall>j \<in> set rest. j \<noteq> 0"
  proof
    fix j assume "j \<in> set rest"
    then have "j \<in> set js" by (simp add: js)
    from chainOf_member [OF ch this] obtain p where "?m j = Some p" by blast
    from lookup_SomeD [OF this] pos show "j \<noteq> 0" by auto
  qed
  from scanSecondary_chain [OF sg [unfolded js] h(2) nz, of name st]
  have run: "scanSecondary (Some h) ?ps name st = Some (scanChain (pagesAt ?m js) name st)"
    by (simp add: js)
  from lookup_SomeD [OF h(2)] have hs: "h \<in> set ?ps" "pid h \<in> set js" by (simp_all add: js)
  from scanSecondary_shape [OF run, of "set js"] hs chain_linksInside [OF d ch]
  have "secondaryShape (set js) ?ps name st (scanChain (pagesAt ?m js) name st)" by simp
  with ch h(1) run show ?thesis by (rule that)
qed

text \<open>
  Claim C7.  For every engine state, that is every state reached from \<open>initializeEngine\<close>
  by \<open>insertRecord\<close> calls, and every parameter, a \<open>BY_NAME_COVERING\<close> query returns a step
  sequence; each of its \<open>SCAN_PAGE\<close> steps targets the id of a \<open>SECONDARY\<close> page and of no
  \<open>PRIMARY\<close> page; and if a page of the secondary index holds a record of that name, the
  sequence consists of the query-text step, \<open>SCAN_PAGE\<close> steps, the \<open>FOUND_INDEX_ENTRY\<close>
  step for a record of that name on a \<open>SECONDARY\<close> page, and one closing \<open>FINISHED\<close> step
  that carries the primary key of that record.
\<close>

theorem covering_query_stays_secondary:
  assumes reach: "insertAll lc initializeEngine ops = Some s"
  shows "\<exists>sts. simulateSelectQuery s (BY_NAME_COVERING name) = Some sts
     \<and> (\<forall>x \<in> set sts. stepType x = SCAN_PAGE \<longrightarrow>
          (\<exists>p \<in> set (pages s). pid p = targetPageId x \<and> indexType p = SECONDARY)
          \<and> \<not> (\<exists>p \<in> set (pages s). pid p = targetPageId x \<and> indexType p = PRIMARY))
     \<and> ((\<exists>p \<in> set (pages s). indexType p = SECONDARY \<and> (\<exists>r \<in> set (records p). rvalue r = name))
          \<longrightarrow> (\<exists>q scans e f c r. sts = q # scans @ [e, f]
                 \<and> stepType q = FINISHED \<and> stepMessage q = msgQueryByName True name
                 \<and> (\<forall>x \<in> set scans. stepType x = SCAN_PAGE)
                 \<and> stepType e = FOUND_INDEX_ENTRY \<and> targetPageId e = pid c
                 \<and> targetRecordId e = Some (rid r)
                 \<and> stepType f = FINISHED \<and> stepMessage f = msgCovering
                 \<and> targetPageId f = pid c \<and> targetRecordId f = Some (rid r)
                 \<and> c \<in> set (pages s) \<and> indexType c = SECONDARY
                 \<and> r \<in> set (records c) \<and> rvalue r = name))"
proof -
  let ?ps = "pages s" and ?m = "lookup (pages s)"
  let ?q = "\<lparr>stepId = 0, stepMessage = msgQueryByName True name, targetPageId = 0,
             targetRecordId = None, stepType = FINISHED\<rparr>"
  let ?st0 = "addStep emptySim (msgQueryByName True name) 0 FINISHED None"
  from insertAll_inv [OF stateInv_initial, of lc ops] reach have inv: "stateInv s" by simp
  then have d: "distinct (map pid ?ps)" by (simp add: stateInv_def baseInv_def)
  from inv obtain js h where ch: "chainOf ?m SECONDARY js"
    and h: "secondaryHead ?ps = Some h"
    and run: "scanSecondary (Some h) ?ps name ?st0 = Some (scanChain (pagesAt ?m js) name ?st0)"
    and shape: "secondaryShape (set js) ?ps name ?st0 (scanChain (pagesAt ?m js) name ?st0)"
    by (rule secondary_walk)
  let ?ex = "scanChain (pagesAt ?m js) name ?st0"
  have st0: "steps ?st0 = [?q]" by (rule steps_addStep_empty)
  have sec: "(\<exists>p \<in> set ?ps. pid p = i \<and> indexType p = SECONDARY)
       \<and> \<not> (\<exists>p \<in> set ?ps. pid p = i \<and> indexType p = PRIMARY)" if "i \<in> set js" for i
  proof -
    from chainOf_member [OF ch that] obtain p where p: "?m i = Some p" "indexType p = SECONDARY"
      by blast
    from lookup_SomeD [OF p(1)] have pp: "p \<in> set ?ps" "pid p = i" by simp_all
    have "indexType p' \<noteq> PRIMARY" if "p' \<in> set ?ps" "pid p' = i" for p'
      using lookup_distinct [OF d that(1)] that(2) p by simp
    with pp p(2) show ?thesis by blast
  qed
  show ?thesis
  proof (cases ?ex)
    case (NoEntry st')
    let ?nf = "\<lparr>stepId = nextStepId st', stepMessage = msgNameNotFound name, targetPageId = 0,
             targetRecordId = None, stepType = FINISHED\<rparr>"
    from shape NoEntry have "scansIn (set js) ?st0 st'" by simp
    then obtain new where new: "steps st' = ?q # new"
      "\<forall>x \<in> set new. stepType x = SCAN_PAGE \<and> targetPageId x \<in> set js"
      unfolding scansIn_def st0 by auto
    let ?sts = "?q # new @ [?nf]"
    have r: "simulateSelectQuery s (BY_NAME_COVERING name) = Some ?sts"
      using h run NoEntry new(1)
      by (simp add: simulateSelectQuery_def simulateByName_def addStep_def)
    have a: "\<forall>x \<in> set ?sts. stepType x = SCAN_PAGE \<longrightarrow>
          (\<exists>p \<in> set ?ps. pid p = targetPageId x \<and> indexType p = SECONDARY)
          \<and> \<not> (\<exists>p \<in> set ?ps. pid p = targetPageId x \<and> indexType p = PRIMARY)"
      using new(2) sec by auto
    have nomatch: "\<not> (\<exists>p \<in> set ?ps. indexType p = SECONDARY \<and> (\<exists>r \<in> set (records p). rvalue r = name))"
    proof
      assume "\<exists>p \<in> set ?ps. indexType p = SECONDARY \<and> (\<exists>r \<in> set (records p). rvalue r = name)"
      then have "\<exists>c \<in> set (pagesAt ?m js). \<exists>r \<in> set (records c). rvalue r = name"
        unfolding pagesAt_set [OF d ch] by blast
      from scanChain_found [OF this, of ?st0] NoEntry show False by simp
    qed
    from r a nomatch show ?thesis by blast
  next
    case (FoundEntry st' c pk)
    from shape FoundEntry have "secondaryShape (set js) ?ps name ?st0 (FoundEntry st' c pk)" by simp
    then obtain mid r where m: "scansIn (set js) ?st0 mid"
      "st' = addStep mid (msgFoundEntry name pk (pid c)) (pid c) FOUND_INDEX_ENTRY (Some pk)"
      "c \<in> set ?ps" "pid c \<in> set js" "r \<in> set (records c)" "rvalue r = name" "rid r = pk"
      by (rule secondaryShape_FoundE)
    from m(1) obtain new where new: "steps mid = ?q # new"
      "\<forall>x \<in> set new. stepType x = SCAN_PAGE \<and> targetPageId x \<in> set js"
      unfolding scansIn_def st0 by auto
    let ?e = "\<lparr>stepId = nextStepId mid, stepMessage = msgFoundEntry name pk (pid c),
               targetPageId = pid c, targetRecordId = Some pk, stepType = FOUND_INDEX_ENTRY\<rparr>"
    let ?f = "\<lparr>stepId = Suc (nextStepId mid), stepMessage = msgCovering,
               targetPageId = pid c, targetRecordId = Some pk, stepType = FINISHED\<rparr>"
    let ?sts = "?q # new @ [?e, ?f]"
    have r: "simulateSelectQuery s (BY_NAME_COVERING name) = Some ?sts"
      using h run FoundEntry new(1) m(2)
      by (simp add: simulateSelectQuery_def simulateByName_def addStep_def)
    have a: "\<forall>x \<in> set ?sts. stepType x = SCAN_PAGE \<longrightarrow>
          (\<exists>p \<in> set ?ps. pid p = targetPageId x \<and> indexType p = SECONDARY)
          \<and> \<not> (\<exists>p \<in> set ?ps. pid p = targetPageId x \<and> indexType p = PRIMARY)"
      using new(2) sec by auto
    from sec [OF m(4)] m(3) lookup_distinct [OF d] have ct: "indexType c = SECONDARY"
      by (metis option.inject)
    have b: "\<exists>q scans e f c r. ?sts = q # scans @ [e, f]
                 \<and> stepType q = FINISHED \<and> stepMessage q = msgQueryByName True name
                 \<and> (\<forall>x \<in> set scans. stepType x = SCAN_PAGE)
                 \<and> stepType e = FOUND_INDEX_ENTRY \<and> targetPageId e = pid c
                 \<and> targetRecordId e = Some (rid r)
                 \<and> stepType f = FINISHED \<and> stepMessage f = msgCovering
                 \<and> targetPageId f = pid c \<and> targetRecordId f = Some (rid r)
                 \<and> c \<in> set (pages s) \<and> indexType c = SECONDARY
                 \<and> r \<in> set (records c) \<and> rvalue r = name"
      by (rule exI [of _ ?q], rule exI [of _ new], rule exI [of _ ?e], rule exI [of _ ?f],
          rule exI [of _ c], rule exI [of _ r])
        (use new(2) m(3,5,6,7) ct in simp)
    from r a b show ?thesis by blast
  qed
qed

text \<open>
  The theorem at the state after the five inserts of the scenario and the name
  \<open>"Dave"\<close>, which is on the second page of the secondary index, page 4.
\<close>

theorem covering_query_stays_secondary_witness:
  "\<exists>s sts. scenarioState = Some s
     \<and> map (\<lambda>p. (pid p, indexType p, map rvalue (records p))) (pages s)
          = [(1, PRIMARY, [''Alice'', ''Bob'', ''Charlie'']),
             (2, SECONDARY, [''Alice'', ''Bob'', ''Charlie'']),
             (3, PRIMARY, [''Dave'', ''Eve'']),
             (4, SECONDARY, [''Dave'', ''Eve''])]
     \<and> simulateSelectQuery s (BY_NAME_COVERING ''Dave'') = Some sts
     \<and> map (\<lambda>x. (stepType x, targetPageId x, targetRecordId x)) sts
          = [(FINISHED, 0, None), (SCAN_PAGE, 2, None), (SCAN_PAGE, 4, None),
             (FOUND_INDEX_ENTRY, 4, Some 4), (FINISHED, 4, Some 4)]"
proof -
  define s where "s = the scenarioState"
  have a: "scenarioState = Some s" unfolding s_def by code_simp
  then have reach: "insertAll strCompare initializeEngine
       [(1, ''Alice''), (2, ''Bob''), (3, ''Charlie''), (4, ''Dave''), (5, ''Eve'')] = Some s"
    unfolding scenarioState_def .
  have b: "map (\<lambda>p. (pid p, indexType p, map rvalue (records p))) (pages s)
          = [(1, PRIMARY, [''Alice'', ''Bob'', ''Charlie'']),
             (2, SECONDARY, [''Alice'', ''Bob'', ''Charlie'']),
             (3, PRIMARY, [''Dave'', ''Eve'']),
             (4, SECONDARY, [''Dave'', ''Eve''])]"
    unfolding s_def by code_simp
  from covering_query_stays_secondary [OF reach, of "''Dave''"] obtain sts where
    c: "simulateSelectQuery s (BY_NAME_COVERING ''Dave'') = Some sts"
    by (elim exE conjE)
  have "map (\<lambda>x. (stepType x, targetPageId x, targetRecordId x))
          (the (simulateSelectQuery s (BY_NAME_COVERING ''Dave'')))
          = [(FINISHED, 0, None), (SCAN_PAGE, 2, None), (SCAN_PAGE, 4, None),
             (FOUND_INDEX_ENTRY, 4, Some 4), (FINISHED, 4, Some 4)]"
    unfolding s_def by code_simp
  with c have d: "map (\<lambda>x. (stepType x, targetPageId x, targetRecordId x)) sts
          = [(FINISHED, 0, None), (SCAN_PAGE, 2, None), (SCAN_PAGE, 4, None),
             (FOUND_INDEX_ENTRY, 4, Some 4), (FINISHED, 4, Some 4)]" by simp
  from a b c d show ?thesis by (intro exI conjI)
qed

section \<open>Queries on a well-formed state\<close>

lemma scanPrimaryById_chain:
  assumes "seg (lookup ps) t prv (i # rest) None" and "lookup ps i = Some p"
  shows "\<exists>ex. scanPrimaryById (Some p) ps k st = Some ex"
  using assms
proof (induction rest arbitrary: i p prv st)
  case Nil
  then have "nextPageId p = None" by simp
  then show ?case
    by (subst scanPrimaryById.simps) (simp add: truthy_def del: bex_simps)
next
  case (Cons j rest)
  let ?m = "lookup ps"
  let ?st1 = "addStep st (msgScanPrimary (pid p)) (pid p) SCAN_PAGE None"
  from Cons.prems have nx: "nextPageId p = Some j" and sg: "seg ?m t (Some i) (j # rest) None"
    by simp_all
  from sg obtain q where q: "?m j = Some q" by (auto split: option.splits)
  then have f: "find (\<lambda>x. Some (pid x) = nextPageId p) ps = Some q"
    using nx by (simp add: lookup_def)
  from Cons.IH [OF sg q, of ?st1] obtain ex where
    "scanPrimaryById (Some q) ps k ?st1 = Some ex" by blast
  with f show ?case
    by (subst scanPrimaryById.simps) (simp del: bex_simps)
qed

lemma scanPrimaryByPk_chain:
  assumes "seg (lookup ps) t prv (i # rest) None" and "lookup ps i = Some p"
  shows "\<exists>ex. scanPrimaryByPk (Some p) ps pk st = Some ex"
  using assms
proof (induction rest arbitrary: i p prv st)
  case Nil
  then have "nextPageId p = None" by simp
  then show ?case
    by (subst scanPrimaryByPk.simps) (simp add: truthy_def del: bex_simps)
next
  case (Cons j rest)
  let ?m = "lookup ps"
  let ?st1 = "addStep st (msgScanPrimaryForPk (pid p) pk) (pid p) SCAN_PAGE None"
  from Cons.prems have nx: "nextPageId p = Some j" and sg: "seg ?m t (Some i) (j # rest) None"
    by simp_all
  from sg obtain q where q: "?m j = Some q" by (auto split: option.splits)
  then have f: "find (\<lambda>x. Some (pid x) = nextPageId p) ps = Some q"
    using nx by (simp add: lookup_def)
  from Cons.IH [OF sg q, of ?st1] obtain ex where
    "scanPrimaryByPk (Some q) ps pk ?st1 = Some ex" by blast
  with f show ?case
    by (subst scanPrimaryByPk.simps) (simp del: bex_simps)
qed

lemma primary_walks:
  assumes inv: "stateInv s"
  shows "\<exists>h. primaryHead (pages s) = Some h
     \<and> (\<forall>k st. \<exists>ex. scanPrimaryById (Some h) (pages s) k st = Some ex)
     \<and> (\<forall>pk st. \<exists>ex. scanPrimaryByPk (Some h) (pages s) pk st = Some ex)"
proof -
  let ?ps = "pages s" and ?m = "lookup (pages s)"
  from inv obtain "is" where d: "distinct (map pid ?ps)" and ch: "chainOf ?m PRIMARY is"
    unfolding stateInv_def baseInv_def by blast
  from ch obtain i rest where isq: "is = i # rest" unfolding chainOf_def by (cases "is") auto
  from ch have sg: "seg ?m PRIMARY None (i # rest) None" by (simp add: chainOf_def isq)
  from typeHead_chain [OF d ch] obtain h where h: "primaryHead ?ps = Some h" "?m i = Some h"
    unfolding primaryHead_def isq by auto
  from h(1) scanPrimaryById_chain [OF sg h(2)] scanPrimaryByPk_chain [OF sg h(2)]
  show ?thesis by blast
qed

lemma simulateSelectQuery_returns:
  assumes inv: "stateInv s"
  shows "\<exists>sts. simulateSelectQuery s q = Some sts"
proof -
  from primary_walks [OF inv] obtain h where h: "primaryHead (pages s) = Some h"
    and byId: "\<And>k st. \<exists>ex. scanPrimaryById (Some h) (pages s) k st = Some ex"
    and byPk: "\<And>pk st. \<exists>ex. scanPrimaryByPk (Some h) (pages s) pk st = Some ex"
    by blast
  have name: "\<exists>sts. simulateByName (pages s) cov name = Some sts" for cov name
  proof -
    let ?st0 = "addStep emptySim (msgQueryByName cov name) 0 FINISHED None"
    from inv obtain js g where g: "secondaryHead (pages s) = Some g"
      and run: "scanSecondary (Some g) (pages s) name ?st0
                  = Some (scanChain (pagesAt (lookup (pages s)) js) name ?st0)"
      by (rule secondary_walk)
    show ?thesis
    proof (cases "scanChain (pagesAt (lookup (pages s)) js) name ?st0")
      case (NoEntry st')
      with g run show ?thesis by (simp add: simulateByName_def)
    next
      case (FoundEntry st' c pk)
      from byPk [of pk "addStep st' (msgJump pk) (pid c) JUMP_TO_PK (Some pk)"] obtain ex where
        "scanPrimaryByPk (Some h) (pages s) pk
           (addStep st' (msgJump pk) (pid c) JUMP_TO_PK (Some pk)) = Some ex" by blast
      with g run h FoundEntry show ?thesis
        by (cases ex) (simp_all add: simulateByName_def)
    qed
  qed
  show ?thesis
  proof (cases q)
    case (BY_ID k)
    from byId [of k "addStep emptySim (msgQueryById k) 0 FINISHED None"] obtain ex where
      "scanPrimaryById (Some h) (pages s) k (addStep emptySim (msgQueryById k) 0 FINISHED None)
         = Some ex" by blast
    with h BY_ID show ?thesis
      by (cases ex) (simp_all add: simulateSelectQuery_def simulateById_def)
  next
    case (BY_NAME n)
    with name [of False n] show ?thesis by (simp add: simulateSelectQuery_def)
  next
    case (BY_NAME_COVERING n)
    with name [of True n] show ?thesis by (simp add: simulateSelectQuery_def)
  qed
qed

section \<open>The target page is a page of the array\<close>

lemma findTarget_member:
  assumes "findTarget cur ps cmp r = Some tgt"
  shows "(\<forall>c. cur = Some c \<longrightarrow> c \<in> set ps) \<longrightarrow> tgt = - 1 \<or> tgt \<in> pid ` set ps"
proof (rule findTarget.raw_induct
        [where P = "\<lambda>cur ps cmp r tgt.
           (\<forall>c. cur = Some c \<longrightarrow> c \<in> set ps) \<longrightarrow> tgt = - 1 \<or> tgt \<in> pid ` set ps",
         OF _ assms], goal_cases)
  case (1 f cur ps cmp r tgt)
  show ?case
  proof (intro impI)
    assume m: "\<forall>c. cur = Some c \<longrightarrow> c \<in> set ps"
    show "tgt = - 1 \<or> tgt \<in> pid ` set ps"
    proof (cases cur)
      case None
      with 1(2) show ?thesis by simp
    next
      case (Some c)
      with m have c: "c \<in> set ps" by simp
      show ?thesis
      proof (cases "nextPageId c")
        case None
        with 1(2) Some c show ?thesis by auto
      next
        case nx: (Some n)
        show ?thesis
        proof (cases "find (\<lambda>p. pid p = n) ps")
          case None
          with 1(2) Some nx have "f None ps cmp r = Some tgt" by simp
          from 1(1) [OF this] show ?thesis by simp
        next
          case q: (Some q)
          from find_SomeD [OF q] have qs: "q \<in> set ps" by simp
          show ?thesis
          proof (cases "records q \<noteq> [] \<and> cmp (hd (records q)) r > 0")
            case True
            with 1(2) Some nx q c show ?thesis by auto
          next
            case False
            with 1(2) Some nx q have "f (Some q) ps cmp r = Some tgt" by auto
            from 1(1) [OF this] qs show ?thesis by simp
          qed
        qed
      qed
    qed
  qed
qed

lemma chainHead_member:
  assumes "chainHead ps t = Some h"
  shows "h \<in> set ps"
proof -
  let ?ip = "filter (\<lambda>p. indexType p = t) ps"
  have "h \<in> set ?ip"
  proof (cases "find (\<lambda>p. prevPageId p = None) ?ip")
    case None
    with assms have "?ip = h # tl ?ip"
      by (cases ?ip) (simp_all add: chainHead_def)
    then show ?thesis by (metis list.set_intros(1))
  next
    case (Some a)
    with assms have "a = h" by (simp add: chainHead_def)
    with find_SomeD [OF Some] show ?thesis by simp
  qed
  then show ?thesis by simp
qed

lemma insertIntoIndex_None:
  "insertIntoIndex ps t r cmp c ls = None \<longleftrightarrow> findTarget (chainHead ps t) ps cmp r = None"
proof (cases "findTarget (chainHead ps t) ps cmp r")
  case None
  then show ?thesis by (simp add: insertIntoIndex_def)
next
  case (Some tgt)
  from findTarget_member [OF Some] chainHead_member [of ps t]
  have "tgt = - 1 \<or> tgt \<in> pid ` set ps" by blast
  then have "tgt \<noteq> - 1 \<longrightarrow> findIndex (\<lambda>p. pid p = tgt) ps \<noteq> None"
    by (auto simp: findIndex_None)
  with Some show ?thesis
    by (auto simp: insertIntoIndex_def Let_def split: option.splits)
qed

section \<open>The step sequences of the queries\<close>

text \<open>
  Claim C10.  For every engine state and every query, the step sequence that
  \<open>simulateSelectQuery\<close> returns is numbered consecutively from zero: its \<open>i\<close>-th step
  (counted from 0) has \<open>stepId = i\<close>.  On every state reached from \<open>initializeEngine\<close> by
  \<open>insertRecord\<close> calls the simulator does return a sequence.
\<close>

theorem stepIds_consecutive:
  "(\<forall>sts. simulateSelectQuery state q = Some sts \<longrightarrow> (\<forall>i < length sts. stepId (sts ! i) = i))
   \<and> (\<forall>lc ops. insertAll lc initializeEngine ops = Some state
         \<longrightarrow> (\<exists>sts. simulateSelectQuery state q = Some sts))"
proof (intro conjI allI impI)
  fix sts i assume "simulateSelectQuery state q = Some sts" "i < length sts"
  then show "stepId (sts ! i) = i" by (rule stepIds_numbered)
next
  fix lc ops assume "insertAll lc initializeEngine ops = Some state"
  with insertAll_inv [OF stateInv_initial, of lc ops] have "stateInv state" by simp
  then show "\<exists>sts. simulateSelectQuery state q = Some sts" by (rule simulateSelectQuery_returns)
qed

text \<open>
  The theorem at the scenario state and the query \<open>BY_NAME "Alice"\<close>, whose six steps
  are numbered 0 to 5.
\<close>

theorem stepIds_consecutive_witness:
  "\<exists>s sts. scenarioState = Some s \<and> simulateSelectQuery s (BY_NAME ''Alice'') = Some sts
     \<and> length sts = 6 \<and> 5 < length sts \<and> stepId (sts ! 5) = 5"
proof -
  define s where "s = the scenarioState"
  have a: "scenarioState = Some s" unfolding s_def by code_simp
  then have reach: "insertAll strCompare initializeEngine
       [(1, ''Alice''), (2, ''Bob''), (3, ''Charlie''), (4, ''Dave''), (5, ''Eve'')] = Some s"
    unfolding scenarioState_def .
  note t = stepIds_consecutive [of s "BY_NAME ''Alice''"]
  from t [THEN conjunct2, rule_format, OF reach] obtain sts where
    b: "simulateSelectQuery s (BY_NAME ''Alice'') = Some sts" ..
  have "length (the (simulateSelectQuery s (BY_NAME ''Alice''))) = 6" unfolding s_def by code_simp
  with b have c: "length sts = 6" by simp
  then have d: "5 < length sts" by simp
  from t [THEN conjunct1, rule_format, OF b d] have e: "stepId (sts ! 5) = 5" .
  from a b c d e show ?thesis by (intro exI conjI)
qed

section \<open>The entries of the secondary index and the table lookup\<close>

lemma secondaryKeys_chain:
  assumes d: "distinct (map pid (pages s))" and ch: "chainOf (lookup (pages s)) SECONDARY js"
  shows "secondaryKeys s = rid ` set (chainRecs (lookup (pages s)) js)"
proof -
  have "set (chainRecs (lookup (pages s)) js)
          = (\<Union>p \<in> set (pagesAt (lookup (pages s)) js). set (records p))"
    by (simp add: pagesAt_records [symmetric])
  also have "\<dots> = (\<Union>p \<in> {p \<in> set (pages s). indexType p = SECONDARY}. set (records p))"
    by (simp only: pagesAt_set [OF d ch])
  finally show ?thesis unfolding secondaryKeys_def by auto
qed

lemma insertRecord_secondaryKeys:
  assumes "stateInv s"
  shows "\<exists>s'. insertRecord lc s i v = Some s' \<and> stateInv s'
           \<and> primaryKeys s' = insert i (primaryKeys s)
           \<and> secondaryKeys s' = insert i (secondaryKeys s)"
proof -
  from assms obtain "is" js where a: "baseInv (pages s) (pageCounter s)"
    "chainOf (lookup (pages s)) PRIMARY is" "primaryOrdered (lookup (pages s)) is"
    "chainOf (lookup (pages s)) SECONDARY js"
    unfolding stateInv_def by blast
  from insertRecord_keys [OF assms, of lc i v] obtain s' where
    k: "insertRecord lc s i v = Some s'" "stateInv s'" "primaryKeys s' = insert i (primaryKeys s)"
    by blast
  from insertRecord_effect [OF a, of lc i v] k(1) obtain js' where
    e: "baseInv (pages s') (pageCounter s')" "chainOf (lookup (pages s')) SECONDARY js'"
      "mset (chainRecs (lookup (pages s')) js')
         = add_mset (newRecord i v) (mset (map cleanRecord (chainRecs (lookup (pages s)) js)))"
    by auto
  from a(1) e(1) have d: "distinct (map pid (pages s))" "distinct (map pid (pages s'))"
    by (simp_all add: baseInv_def)
  from e(3) have "set_mset (mset (chainRecs (lookup (pages s')) js'))
      = set_mset (add_mset (newRecord i v) (mset (map cleanRecord (chainRecs (lookup (pages s)) js))))"
    by simp
  then have "set (chainRecs (lookup (pages s')) js')
      = insert (newRecord i v) (cleanRecord ` set (chainRecs (lookup (pages s)) js))"
    by simp
  then have "rid ` set (chainRecs (lookup (pages s')) js')
      = insert i (rid ` set (chainRecs (lookup (pages s)) js))"
    by (simp add: image_image newRecord_def cleanRecord_def)
  then have "secondaryKeys s' = insert i (secondaryKeys s)"
    by (simp add: secondaryKeys_chain [OF d(1) a(4)] secondaryKeys_chain [OF d(2) e(2)])
  with k show ?thesis by blast
qed

lemma insertAll_secondaryKeys:
  "stateInv s \<Longrightarrow> secondaryKeys s \<subseteq> primaryKeys s
     \<Longrightarrow> \<exists>s'. insertAll lc s ops = Some s' \<and> stateInv s' \<and> secondaryKeys s' \<subseteq> primaryKeys s'"
proof (induction ops arbitrary: s)
  case Nil
  then show ?case by simp
next
  case (Cons x ops)
  obtain i v where x: "x = (i, v)" by (cases x)
  from insertRecord_secondaryKeys [OF Cons.prems(1), of lc i v] obtain s1 where
    s1: "insertRecord lc s i v = Some s1" "stateInv s1"
      "primaryKeys s1 = insert i (primaryKeys s)" "secondaryKeys s1 = insert i (secondaryKeys s)"
    by blast
  from s1(3,4) Cons.prems(2) have "secondaryKeys s1 \<subseteq> primaryKeys s1" by auto
  from Cons.IH [OF s1(2) this] s1(1) x show ?case by simp
qed

lemma secondaryKeys_initial: "secondaryKeys initializeEngine = {}"
  by (auto simp: secondaryKeys_def initializeEngine_def createPage_def)

lemma scanPrimaryByPk_finds:
  assumes "seg (lookup ps) t prv (i # rest) None" and "lookup ps i = Some p"
    and "\<forall>j \<in> set rest. j \<noteq> 0"
    and "pk \<in> rid ` set (chainRecs (lookup ps) (i # rest))"
  shows "\<exists>st'. scanPrimaryByPk (Some p) ps pk st = Some (Returned st')"
  using assms
proof (induction rest arbitrary: i p prv st)
  case Nil
  then have "\<exists>r \<in> set (records p). rid r = pk" by (auto simp: chainRecs_def recsOf_def)
  then show ?case by (subst scanPrimaryByPk.simps) (simp del: bex_simps)
next
  case (Cons j rest)
  let ?m = "lookup ps"
  let ?st1 = "addStep st (msgScanPrimaryForPk (pid p) pk) (pid p) SCAN_PAGE None"
  from Cons.prems have nx: "nextPageId p = Some j" and sg: "seg ?m t (Some i) (j # rest) None"
    and nz: "j \<noteq> 0" "\<forall>j \<in> set rest. j \<noteq> 0"
    by simp_all
  from sg obtain q where q: "?m j = Some q" by (auto split: option.splits)
  then have f: "find (\<lambda>x. Some (pid x) = nextPageId p) ps = Some q"
    using nx by (simp add: lookup_def)
  show ?case
  proof (cases "\<exists>r \<in> set (records p). rid r = pk")
    case True
    then show ?thesis by (subst scanPrimaryByPk.simps) (simp del: bex_simps)
  next
    case False
    with Cons.prems(2,4) have "pk \<in> rid ` set (chainRecs ?m (j # rest))"
      by (auto simp: chainRecs_def recsOf_def)
    from Cons.IH [OF sg q nz(2) this, of ?st1] obtain st' where
      "scanPrimaryByPk (Some q) ps pk ?st1 = Some (Returned st')" by blast
    with False f nx nz(1) show ?thesis
      by (subst scanPrimaryByPk.simps) (simp add: truthy_def del: bex_simps)
  qed
qed

lemma byName_ends_terminal:
  assumes inv: "stateInv s" and sub: "secondaryKeys s \<subseteq> primaryKeys s"
  shows "\<exists>sts. simulateByName (pages s) False name = Some sts
           \<and> 2 \<le> length sts \<and> isTerminal (stepType (last sts))"
proof -
  let ?ps = "pages s" and ?m = "lookup (pages s)"
  let ?st0 = "addStep emptySim (msgQueryByName False name) 0 FINISHED None"
  from inv obtain "is" where b: "baseInv ?ps (pageCounter s)" and chP: "chainOf ?m PRIMARY is"
    unfolding stateInv_def by blast
  from b have d: "distinct (map pid ?ps)" and pos: "\<forall>p \<in> set ?ps. 0 < pid p"
    by (simp_all add: baseInv_def)
  from inv obtain js g where chS: "chainOf ?m SECONDARY js"
    and g: "secondaryHead ?ps = Some g"
    and run: "scanSecondary (Some g) ?ps name ?st0 = Some (scanChain (pagesAt ?m js) name ?st0)"
    and shape: "secondaryShape (set js) ?ps name ?st0 (scanChain (pagesAt ?m js) name ?st0)"
    by (rule secondary_walk)
  have st0: "steps ?st0 \<noteq> []" by (simp add: addStep_def)
  show ?thesis
  proof (cases "scanChain (pagesAt ?m js) name ?st0")
    case (NoEntry st')
    from shape NoEntry have "scansIn (set js) ?st0 st'" by simp
    with st0 have ne: "steps st' \<noteq> []" by (auto simp: scansIn_def)
    let ?sts = "steps (addStep st' (msgNameNotFound name) 0 FINISHED None)"
    have r: "simulateByName ?ps False name = Some ?sts"
      using g run NoEntry by (simp add: simulateByName_def)
    have "length ?sts = Suc (length (steps st'))" by (simp add: addStep_def)
    with ne have l: "2 \<le> length ?sts" by (cases "steps st'") simp_all
    have t: "isTerminal (stepType (last ?sts))" by (simp add: addStep_def isTerminal_def)
    from r l t show ?thesis by blast
  next
    case (FoundEntry st' c pk)
    from shape FoundEntry have "secondaryShape (set js) ?ps name ?st0 (FoundEntry st' c pk)" by simp
    then obtain mid r where "scansIn (set js) ?st0 mid"
      "st' = addStep mid (msgFoundEntry name pk (pid c)) (pid c) FOUND_INDEX_ENTRY (Some pk)"
      and m: "c \<in> set ?ps" "pid c \<in> set js" "r \<in> set (records c)"
      and "rvalue r = name" and m4: "rid r = pk"
      by (rule secondaryShape_FoundE)
    from chainOf_member [OF chS m(2)] lookup_distinct [OF d m(1)] have "indexType c = SECONDARY"
      by simp
    with m m4 have "pk \<in> secondaryKeys s" unfolding secondaryKeys_def by blast
    with sub primaryKeys_chain [OF d chP] have pk: "pk \<in> rid ` set (chainRecs ?m is)" by auto
    from chP obtain i rest where isq: "is = i # rest" unfolding chainOf_def by (cases "is") auto
    from chP have sg: "seg ?m PRIMARY None (i # rest) None" by (simp add: chainOf_def isq)
    from typeHead_chain [OF d chP] obtain h where h: "primaryHead ?ps = Some h" "?m i = Some h"
      unfolding primaryHead_def isq by auto
    have nz: "\<forall>j \<in> set rest. j \<noteq> 0"
    proof
      fix j assume "j \<in> set rest"
      then have "j \<in> set is" by (simp add: isq)
      from chainOf_member [OF chP this] obtain p where "?m j = Some p" by blast
      from lookup_SomeD [OF this] pos show "j \<noteq> 0" by auto
    qed
    let ?st1 = "addStep st' (msgJump pk) (pid c) JUMP_TO_PK (Some pk)"
    from scanPrimaryByPk_finds [OF sg h(2) nz pk [unfolded isq], of ?st1] obtain st2 where
      look: "scanPrimaryByPk (Some h) ?ps pk ?st1 = Some (Returned st2)" by blast
    have r: "simulateByName ?ps False name = Some (steps st2)"
      using g run FoundEntry h(1) look by (simp add: simulateByName_def)
    from scanPrimaryByPk_shape [OF look] have "endsFound ?st1 st2 (Some pk)"
      by (simp add: loopShape_def)
    then obtain new t where n: "steps st2 = steps ?st1 @ new @ [t]" "stepType t = FOUND_DATA"
      by (rule endsFound_steps)
    have "steps ?st1 \<noteq> []" by (simp add: addStep_def)
    with n(1) have l: "2 \<le> length (steps st2)" by (cases "steps ?st1") simp_all
    from n have t: "isTerminal (stepType (last (steps st2)))" by (simp add: isTerminal_def)
    from r l t show ?thesis by blast
  qed
qed

lemma simulate_ends_terminal:
  assumes inv: "stateInv s" and sub: "secondaryKeys s \<subseteq> primaryKeys s"
  shows "\<exists>sts. simulateSelectQuery s q = Some sts
           \<and> 2 \<le> length sts \<and> isTerminal (stepType (last sts))"
proof (cases q)
  case (BY_NAME n)
  with byName_ends_terminal [OF inv sub, of n] show ?thesis
    by (simp add: simulateSelectQuery_def)
next
  case (BY_ID k)
  from simulateSelectQuery_returns [OF inv, of q] obtain sts where
    "simulateSelectQuery s q = Some sts" by blast
  with terminal_shape [OF this] BY_ID show ?thesis by simp
next
  case (BY_NAME_COVERING n)
  from simulateSelectQuery_returns [OF inv, of q] obtain sts where
    "simulateSelectQuery s q = Some sts" by blast
  with terminal_shape [OF this] BY_NAME_COVERING show ?thesis by simp
qed

text \<open>
  Claim C5, as amended.  For every engine state, reached from \<open>initializeEngine\<close> by
  \<open>insertRecord\<close> calls, and every query invocation, of any of the three kinds and with
  any parameter, the simulation returns; the returned sequence opens with the query-text
  step, which is itself of kind \<open>FINISHED\<close> (on page 0); apart from that opening step it
  contains exactly one step of terminal kind (\<open>FINISHED\<close> or \<open>FOUND_DATA\<close>), and that step
  is the last step of the sequence, so that every \<open>FINISHED\<close> step but the opening one is
  the last step.
\<close>

theorem terminal_steps:
  assumes "insertAll lc initializeEngine ops = Some state"
  shows "\<exists>q0 mid f. simulateSelectQuery state q = Some (q0 # mid @ [f])
     \<and> stepType q0 = FINISHED \<and> targetPageId q0 = 0
     \<and> (\<forall>x \<in> set mid. \<not> isTerminal (stepType x))
     \<and> (\<forall>x \<in> set mid. stepType x \<noteq> FINISHED)
     \<and> isTerminal (stepType f)
     \<and> length (filter (\<lambda>x. isTerminal (stepType x)) (mid @ [f])) = 1"
proof -
  from insertAll_secondaryKeys [OF stateInv_initial, of lc ops] assms
  have inv: "stateInv state" and sub: "secondaryKeys state \<subseteq> primaryKeys state"
    by (simp_all add: secondaryKeys_initial)
  from simulate_ends_terminal [OF inv sub, of q] obtain sts where
    r: "simulateSelectQuery state q = Some sts" and l: "2 \<le> length sts"
    and t: "isTerminal (stepType (last sts))" by blast
  from terminal_shape [OF r] have h: "stepType (hd sts) = FINISHED" "targetPageId (hd sts) = 0"
    and only: "\<And>i. 0 < i \<Longrightarrow> i < length sts \<Longrightarrow> isTerminal (stepType (sts ! i))
                 \<Longrightarrow> i = length sts - 1"
    by blast+
  define mid where "mid = butlast (tl sts)"
  from l have ne: "sts \<noteq> []" "tl sts \<noteq> []" by (cases sts; auto)+
  then obtain a rest where ar: "sts = a # rest" "rest \<noteq> []" by (cases sts) auto
  then have dec: "sts = hd sts # mid @ [last sts]"
    unfolding mid_def by simp
  have lm: "length mid = length sts - 2" unfolding mid_def by simp
  have nt: "\<not> isTerminal (stepType x)" if "x \<in> set mid" for x
  proof
    assume tx: "isTerminal (stepType x)"
    from that obtain j where j: "j < length mid" "mid ! j = x" by (auto simp: in_set_conv_nth)
    from dec have "sts ! Suc j = (mid @ [last sts]) ! j" by (metis nth_Cons_Suc)
    with j have x: "sts ! Suc j = x" by (simp add: nth_append)
    from j(1) lm l have b: "0 < Suc j" "Suc j < length sts" "Suc j \<noteq> length sts - 1"
      by arith+
    from only [OF b(1,2)] tx x b(3) show False by simp
  qed
  then have nf: "\<forall>x \<in> set mid. stepType x \<noteq> FINISHED" by (auto simp: isTerminal_def)
  from nt t have c: "length (filter (\<lambda>x. isTerminal (stepType x)) (mid @ [last sts])) = 1"
    by (simp add: filter_empty_conv [THEN iffD2])
  from r dec have r': "simulateSelectQuery state q = Some (hd sts # mid @ [last sts])" by simp
  from r' h nt nf t c show ?thesis by blast
qed

text \<open>
  The theorem at the scenario state and the plain \<open>BY_NAME\<close> query for \<open>"Alice"\<close>: after
  the opening step the only step of terminal kind is the closing \<open>FOUND_DATA\<close>.
\<close>

theorem terminal_steps_witness:
  "\<exists>s q0 mid f. scenarioState = Some s
     \<and> simulateSelectQuery s (BY_NAME ''Alice'') = Some (q0 # mid @ [f])
     \<and> map stepType (q0 # mid @ [f])
          = [FINISHED, SCAN_PAGE, FOUND_INDEX_ENTRY, JUMP_TO_PK, SCAN_PAGE, FOUND_DATA]
     \<and> stepType q0 = FINISHED \<and> isTerminal (stepType f)
     \<and> length (filter (\<lambda>x. isTerminal (stepType x)) (mid @ [f])) = 1"
proof -
  define s where "s = the scenarioState"
  have a: "scenarioState = Some s" unfolding s_def by code_simp
  then have reach: "insertAll strCompare initializeEngine
       [(1, ''Alice''), (2, ''Bob''), (3, ''Charlie''), (4, ''Dave''), (5, ''Eve'')] = Some s"
    unfolding scenarioState_def .
  from terminal_steps [OF reach, of "BY_NAME ''Alice''"] obtain q0 mid f where
    b: "simulateSelectQuery s (BY_NAME ''Alice'') = Some (q0 # mid @ [f])"
    and c: "stepType q0 = FINISHED" "isTerminal (stepType f)"
      "length (filter (\<lambda>x. isTerminal (stepType x)) (mid @ [f])) = 1"
    by (elim exE conjE)
  have "map stepType (the (simulateSelectQuery s (BY_NAME ''Alice'')))
          = [FINISHED, SCAN_PAGE, FOUND_INDEX_ENTRY, JUMP_TO_PK, SCAN_PAGE, FOUND_DATA]"
    unfolding s_def by code_simp
  with b have d: "map stepType (q0 # mid @ [f])
          = [FINISHED, SCAN_PAGE, FOUND_INDEX_ENTRY, JUMP_TO_PK, SCAN_PAGE, FOUND_DATA]"
    by simp
  from a b d c show ?thesis by (intro exI conjI)
qed

text \<open>
  Claim C5 as stated fails: the \<open>BY_ID\<close> query for key 1 on the scenario state returns three
  steps, the first of which is a \<open>FINISHED\<close> step that is not last, and two of which are of
  terminal kind.
\<close>

theorem terminal_steps_counterexample:
  "\<exists>s sts. scenarioState = Some s \<and> simulateSelectQuery s (BY_ID (Some 1)) = Some sts
     \<and> map stepType sts = [FINISHED, SCAN_PAGE, FOUND_DATA]
     \<and> length (filter (\<lambda>x. isTerminal (stepType x)) sts) = 2"
proof -
  define s where "s = the scenarioState"
  define sts where "sts = the (simulateSelectQuery s (BY_ID (Some 1)))"
  have a: "scenarioState = Some s" unfolding s_def by code_simp
  have b: "simulateSelectQuery s (BY_ID (Some 1)) = Some sts" unfolding sts_def s_def by code_simp
  have c: "map stepType sts = [FINISHED, SCAN_PAGE, FOUND_DATA]" unfolding sts_def s_def by code_simp
  have d: "length (filter (\<lambda>x. isTerminal (stepType x)) sts) = 2"
    unfolding sts_def s_def by code_simp
  from a b c d show ?thesis by (intro exI conjI)
qed

section \<open>Resets and reachability\<close>

lemma insertAll_append:
  "insertAll lc s (xs @ ys)
     = (case insertAll lc s xs of None \<Rightarrow> None | Some s' \<Rightarrow> insertAll lc s' ys)"
  by (induction xs arbitrary: s) (auto split: option.splits)

lemma runOps_insertAll:
  assumes "insertAll lc initializeEngine ops0 = Some s0" and "runOps lc s0 xs = Some s"
  shows "\<exists>ops. insertAll lc initializeEngine ops = Some s"
  using assms
proof (induction xs arbitrary: s0 ops0)
  case Nil
  then show ?case by auto
next
  case (Cons x xs)
  show ?case
  proof (cases x)
    case (Insert i v)
    with Cons.prems(2) obtain s1 where s1: "insertRecord lc s0 i v = Some s1"
      "runOps lc s1 xs = Some s" by (auto split: option.splits)
    from Cons.prems(1) s1(1) have "insertAll lc initializeEngine (ops0 @ [(i, v)]) = Some s1"
      by (simp add: insertAll_append)
    from Cons.IH [OF this s1(2)] show ?thesis .
  next
    case Reset
    with Cons.prems(2) have "runOps lc initializeEngine xs = Some s"
      by (simp add: resetEngine_def)
    moreover have "insertAll lc initializeEngine [] = Some initializeEngine" by simp
    ultimately show ?thesis by (rule Cons.IH [rotated])
  qed
qed

end
